theory Spec2Isabelle
  imports Main "HOL-Library.Multiset"
begin

section \<open>The roster manager of \<^verbatim>\<open>system.cpp\<close>\<close>

text \<open>
  A shallow embedding of the class \<^verbatim>\<open>RosterManager\<close> and of the menu entry that
  adds a student. Member functions take the object and return it updated. Three things
  the class obtains from its environment are arguments of the model:
  \<^item> \<^verbatim>\<open>std::shuffle(first, last, rng_)\<close> is the parameter \<open>shuffle\<close>, which maps the
    generator and a sequence of indices to the rearranged sequence and the advanced
    generator. The C++ standard promises a permutation of the input and nothing more;
    that promise is the predicate \<open>permuting\<close>, assumed where a result depends on it;
  \<^item> \<^verbatim>\<open>std::chrono::system_clock::now()\<close> is the argument \<open>now\<close> of a draw;
  \<^item> the file read by \<^verbatim>\<open>importFromFile\<close> is its sequence of lines, or \<open>None\<close> when
    the file cannot be opened.
  Undefined behaviour of the C++ code is a value of type \<open>ub\<close>.
\<close>

subsection \<open>Data\<close>

record Student =
  name :: string
  group :: string
  callCount :: int

text \<open>The fields of \<^verbatim>\<open>CallRecord\<close> are \<^verbatim>\<open>name\<close>, \<^verbatim>\<open>group\<close>, \<^verbatim>\<open>timestamp\<close>; the first two
  carry a prefix here, since a record field is a constant of the theory.\<close>

record CallRecord =
  cr_name :: string
  cr_group :: string
  timestamp :: int

record ImportStats =
  added :: nat
  duplicates :: nat
  malformed :: nat

record 'g RosterManager =
  students :: "Student list"
  groupPools :: "string \<rightharpoonup> nat list"
  globalPool :: "nat list"
  history :: "CallRecord list"
  rng :: 'g

type_synonym 'g shuffler = "'g \<Rightarrow> nat list \<Rightarrow> nat list \<times> 'g"

definition permuting :: "'g shuffler \<Rightarrow> bool" where
  "permuting shuffle \<longleftrightarrow> (\<forall>g xs. mset (fst (shuffle g xs)) = mset xs)"

datatype ub = FrontOfEmptyPool | IndexOutOfRange | CounterOverflow

definition INT_MAX :: int where
  "INT_MAX = 2147483647"

text \<open>The constructor: empty containers, the generator seeded from the random device.\<close>

definition newRosterManager :: "'g \<Rightarrow> 'g RosterManager" where
  "newRosterManager seed =
     \<lparr>students = [], groupPools = Map.empty, globalPool = [], history = [], rng = seed\<rparr>"

subsection \<open>Insertion and invalidation\<close>

definition resetCycle :: "'g RosterManager \<Rightarrow> 'g RosterManager" where
  "resetCycle s = s\<lparr>globalPool := [], groupPools := Map.empty\<rparr>"

definition clearHistory :: "'g RosterManager \<Rightarrow> 'g RosterManager" where
  "clearHistory s = s\<lparr>history := []\<rparr>"

definition addStudent ::
  "string \<Rightarrow> string \<Rightarrow> bool \<Rightarrow> 'g RosterManager \<Rightarrow> bool \<times> 'g RosterManager" where
  "addStudent nm grp refreshPools s =
     (case find (\<lambda>st. name st = nm) (students s) of
        Some duplicate \<Rightarrow> (False, s)
      | None \<Rightarrow>
          (let s1 = s\<lparr>students := students s @ [\<lparr>name = nm, group = grp, callCount = 0\<rparr>]\<rparr>
           in (True, if refreshPools then resetCycle s1 else s1)))"

subsection \<open>The bulk loader\<close>

text \<open>\<^verbatim>\<open>std::string\<close> searches return a position or \<^verbatim>\<open>npos\<close>, here \<open>None\<close>.\<close>

fun find_first_not_of :: "string \<Rightarrow> string \<Rightarrow> nat option" where
  "find_first_not_of [] chars = None"
| "find_first_not_of (c # cs) chars =
     (if c \<in> set chars then map_option Suc (find_first_not_of cs chars) else Some 0)"

fun find_last_not_of :: "string \<Rightarrow> string \<Rightarrow> nat option" where
  "find_last_not_of [] chars = None"
| "find_last_not_of (c # cs) chars =
     (case find_last_not_of cs chars of
        Some k \<Rightarrow> Some (Suc k)
      | None \<Rightarrow> if c \<in> set chars then None else Some 0)"

fun find_char :: "string \<Rightarrow> char \<Rightarrow> nat option" where
  "find_char [] ch = None"
| "find_char (c # cs) ch = (if c = ch then Some 0 else map_option Suc (find_char cs ch))"

text \<open>\<^verbatim>\<open>substr(pos, len)\<close> for \<open>pos\<close> not beyond the end, which holds at each call.\<close>

definition substr :: "string \<Rightarrow> nat \<Rightarrow> nat \<Rightarrow> string" where
  "substr text pos len = take len (drop pos text)"

definition whitespace :: string where
  "whitespace = [CHR '' '', CHR 0x09, CHR 0x0D, CHR 0x0A]"

text \<open>When a first non-blank character exists, so does a last one: the inner \<open>None\<close>
  is never taken (lemma \<open>find_last_exists\<close>).\<close>

definition trim :: "string \<Rightarrow> string" where
  "trim text =
     (case find_first_not_of text whitespace of
        None \<Rightarrow> []
      | Some first_pos \<Rightarrow>
          (case find_last_not_of text whitespace of
             None \<Rightarrow> []
           | Some last_pos \<Rightarrow> substr text first_pos (last_pos - first_pos + 1)))"

text \<open>The body of the \<^verbatim>\<open>while (std::getline(input, line))\<close> loop.\<close>

definition loadLine ::
  "string \<Rightarrow> ImportStats \<times> 'g RosterManager \<Rightarrow> ImportStats \<times> 'g RosterManager" where
  "loadLine line acc =
     (let stats = fst acc; s = snd acc; trimmed = trim line in
      if trimmed = [] \<or> hd trimmed = CHR ''#'' then (stats, s)
      else
        (case find_char trimmed CHR '','' of
           None \<Rightarrow> (stats\<lparr>malformed := malformed stats + 1\<rparr>, s)
         | Some comma \<Rightarrow>
             (let nm = trim (substr trimmed 0 comma);
                  grp = trim (drop (comma + 1) trimmed) in
              if nm = [] \<or> grp = [] then (stats\<lparr>malformed := malformed stats + 1\<rparr>, s)
              else
                (case addStudent nm grp False s of
                   (True, s') \<Rightarrow> (stats\<lparr>added := added stats + 1\<rparr>, s')
                 | (False, s') \<Rightarrow> (stats\<lparr>duplicates := duplicates stats + 1\<rparr>, s')))))"

fun loadFromStream ::
  "string list \<Rightarrow> ImportStats \<times> 'g RosterManager \<Rightarrow> ImportStats \<times> 'g RosterManager" where
  "loadFromStream [] acc = acc"
| "loadFromStream (line # rest) acc = loadFromStream rest (loadLine line acc)"

definition importFromFile ::
  "string list option \<Rightarrow> 'g RosterManager \<Rightarrow> ImportStats option \<times> 'g RosterManager" where
  "importFromFile input s =
     (case input of
        None \<Rightarrow> (None, s)
      | Some lines \<Rightarrow>
          (let r = loadFromStream lines (\<lparr>added = 0, duplicates = 0, malformed = 0\<rparr>, s)
           in (Some (fst r), resetCycle (snd r))))"

subsection \<open>The pool engine\<close>

definition refillGlobalPool :: "'g shuffler \<Rightarrow> 'g RosterManager \<Rightarrow> 'g RosterManager" where
  "refillGlobalPool shuffle s =
     (let indices = [0 ..< length (students s)];
          r = shuffle (rng s) indices
      in s\<lparr>globalPool := fst r, rng := snd r\<rparr>)"

definition groupIndices :: "string \<Rightarrow> Student list \<Rightarrow> nat list" where
  "groupIndices g sts = filter (\<lambda>i. group (sts ! i) = g) [0 ..< length sts]"

definition refillGroupPool ::
  "'g shuffler \<Rightarrow> string \<Rightarrow> 'g RosterManager \<Rightarrow> 'g RosterManager" where
  "refillGroupPool shuffle g s =
     (let indices = groupIndices g (students s) in
      if indices = [] then s\<lparr>groupPools := (groupPools s)(g := None)\<rparr>
      else
        (let r = shuffle (rng s) indices
         in s\<lparr>groupPools := (groupPools s)(g \<mapsto> fst r), rng := snd r\<rparr>))"

text \<open>\<^verbatim>\<open>groupPools_[key]\<close> inserts an empty deque for a key that is absent, and then
  refers to the deque stored under the key.\<close>

definition subscript :: "string \<Rightarrow> 'g RosterManager \<Rightarrow> 'g RosterManager" where
  "subscript g s =
     (case groupPools s g of
        None \<Rightarrow> s\<lparr>groupPools := (groupPools s)(g \<mapsto> [])\<rparr>
      | Some p \<Rightarrow> s)"

definition poolAt :: "'g RosterManager \<Rightarrow> string \<Rightarrow> nat list" where
  "poolAt s g = (case groupPools s g of None \<Rightarrow> [] | Some p \<Rightarrow> p)"

text \<open>\<^verbatim>\<open>consumeIndex\<close> receives the pool by reference. The model receives its contents and
  returns what is left after \<^verbatim>\<open>pop_front\<close>; the caller stores that back.\<close>

definition consumeIndex ::
  "int \<Rightarrow> nat list \<Rightarrow> 'g RosterManager \<Rightarrow> ub + (Student \<times> nat list \<times> 'g RosterManager)" where
  "consumeIndex now pool s =
     (case pool of
        [] \<Rightarrow> Inl FrontOfEmptyPool
      | idx # rest \<Rightarrow>
          if length (students s) \<le> idx then Inl IndexOutOfRange
          else if callCount (students s ! idx) = INT_MAX then Inl CounterOverflow
          else
            (let student = (students s ! idx)\<lparr>callCount := callCount (students s ! idx) + 1\<rparr>
             in Inr (student, rest,
                  s\<lparr>students := (students s)[idx := student],
                    history := history s @
                      [\<lparr>cr_name = name student, cr_group = group student, timestamp = now\<rparr>]\<rparr>)))"

definition pickRandom ::
  "'g shuffler \<Rightarrow> int \<Rightarrow> string option \<Rightarrow> 'g RosterManager
     \<Rightarrow> ub + (Student option \<times> 'g RosterManager)" where
  "pickRandom shuffle now grp s =
     (if students s = [] then Inr (None, s)
      else
        (case grp of
           Some g \<Rightarrow>
             (let s1 = subscript g s;
                  s2 = (if poolAt s1 g = [] then refillGroupPool shuffle g s1 else s1);
                  s3 = subscript g s2
              in if poolAt s3 g = [] then Inr (None, s3)
                 else
                   (case consumeIndex now (poolAt s3 g) s3 of
                      Inl e \<Rightarrow> Inl e
                    | Inr (student, rest, s4) \<Rightarrow>
                        Inr (Some student, s4\<lparr>groupPools := (groupPools s4)(g \<mapsto> rest)\<rparr>)))
         | None \<Rightarrow>
             (let s2 = (if globalPool s = [] then refillGlobalPool shuffle s else s)
              in if globalPool s2 = [] then Inr (None, s2)
                 else
                   (case consumeIndex now (globalPool s2) s2 of
                      Inl e \<Rightarrow> Inl e
                    | Inr (student, rest, s4) \<Rightarrow>
                        Inr (Some student, s4\<lparr>globalPool := rest\<rparr>)))))"

subsection \<open>History output\<close>

text \<open>What \<^verbatim>\<open>printHistory\<close> writes, line by line. A record's line shows its time, group
  and name; the model keeps the record itself.\<close>

datatype out_line = NoHistoryYet | RecordLine CallRecord

text \<open>The loop over \<^verbatim>\<open>history_.rbegin() .. history_.rend()\<close>, given the records in that
  order.\<close>

fun printLoop :: "CallRecord list \<Rightarrow> nat \<Rightarrow> nat \<Rightarrow> out_line list" where
  "printLoop [] limit cnt = []"
| "printLoop (r # rs) limit cnt =
     RecordLine r #
       (if limit \<noteq> 0 \<and> limit \<le> cnt + 1 then [] else printLoop rs limit (cnt + 1))"

definition printHistory :: "nat \<Rightarrow> 'g RosterManager \<Rightarrow> out_line list" where
  "printHistory limit s =
     (if history s = [] then [NoHistoryYet] else printLoop (rev (history s)) limit 0)"

subsection \<open>The menu entry \<^emph>\<open>Add student\<close>\<close>

text \<open>Case 1 of the menu in \<^verbatim>\<open>main\<close>: the two lines read from the console, the message
  printed, and the manager afterwards.\<close>

definition menuAddStudent ::
  "string \<Rightarrow> string \<Rightarrow> 'g RosterManager \<Rightarrow> string \<times> 'g RosterManager" where
  "menuAddStudent nm grp s =
     (if nm = [] \<or> grp = [] then (''Name and group cannot be empty.'', s)
      else
        (case addStudent nm grp True s of
           (True, s') \<Rightarrow> (''Student added.'', s')
         | (False, s') \<Rightarrow> (''Student already exists.'', s')))"

subsection \<open>Sequences of calls\<close>

datatype call =
    AddStudent string string bool
  | ImportFromFile "string list option"
  | PickRandom int "string option"
  | ResetCycle
  | ClearHistory

fun exec :: "'g shuffler \<Rightarrow> call \<Rightarrow> 'g RosterManager \<Rightarrow> ub + 'g RosterManager" where
  "exec shuffle (AddStudent nm grp refreshPools) s = Inr (snd (addStudent nm grp refreshPools s))"
| "exec shuffle (ImportFromFile input) s = Inr (snd (importFromFile input s))"
| "exec shuffle (PickRandom now grp) s = map_sum id snd (pickRandom shuffle now grp s)"
| "exec shuffle ResetCycle s = Inr (resetCycle s)"
| "exec shuffle ClearHistory s = Inr (clearHistory s)"

fun run :: "'g shuffler \<Rightarrow> call list \<Rightarrow> 'g RosterManager \<Rightarrow> ub + 'g RosterManager" where
  "run shuffle [] s = Inr s"
| "run shuffle (c # cs) s =
     (case exec shuffle c s of Inl e \<Rightarrow> Inl e | Inr s' \<Rightarrow> run shuffle cs s')"

text \<open>Two parts of \<^verbatim>\<open>pickRandom\<close> by name, for stating what a draw does: the state at
  its second emptiness test, after the refill when the first test called for one, and the
  write of what \<^verbatim>\<open>pop_front\<close> left into the pool that was passed by reference. Lemma
  \<open>pickRandom_eq\<close> shows that \<open>pickRandom\<close> is composed of them.\<close>

definition replenish ::
  "'g shuffler \<Rightarrow> string option \<Rightarrow> 'g RosterManager \<Rightarrow> 'g RosterManager" where
  "replenish shuffle scope s =
     (case scope of
        None \<Rightarrow> if globalPool s = [] then refillGlobalPool shuffle s else s
      | Some g \<Rightarrow>
          subscript g
            (if poolAt (subscript g s) g = [] then refillGroupPool shuffle g (subscript g s)
             else subscript g s))"

definition storePool ::
  "string option \<Rightarrow> nat list \<Rightarrow> 'g RosterManager \<Rightarrow> 'g RosterManager" where
  "storePool scope rest s =
     (case scope of
        None \<Rightarrow> s\<lparr>globalPool := rest\<rparr>
      | Some g \<Rightarrow> s\<lparr>groupPools := (groupPools s)(g \<mapsto> rest)\<rparr>)"

text \<open>A sequence of calls with a log of its draws: for each \<open>pickRandom\<close>, in order, the
  scope it was called for and what it returned. Lemma \<open>runLog_run\<close> shows that the state
  reached is that of \<open>run\<close>.\<close>

fun runLog ::
  "'g shuffler \<Rightarrow> call list \<Rightarrow> 'g RosterManager
     \<Rightarrow> ub + ((string option \<times> Student option) list \<times> 'g RosterManager)" where
  "runLog shuffle [] s = Inr ([], s)"
| "runLog shuffle (PickRandom now grp # cs) s =
     (case pickRandom shuffle now grp s of
        Inl e \<Rightarrow> Inl e
      | Inr (r, s1) \<Rightarrow>
          (case runLog shuffle cs s1 of
             Inl e \<Rightarrow> Inl e
           | Inr (lg, s2) \<Rightarrow> Inr ((grp, r) # lg, s2)))"
| "runLog shuffle (c # cs) s =
     (case exec shuffle c s of Inl e \<Rightarrow> Inl e | Inr s1 \<Rightarrow> runLog shuffle cs s1)"

text \<open>What the draws against one scope returned, in order.\<close>

definition drawsOf ::
  "string option \<Rightarrow> (string option \<times> Student option) list \<Rightarrow> Student option list" where
  "drawsOf scope lg = map snd (filter (\<lambda>e. fst e = scope) lg)"

text \<open>The calls that are neither an insertion nor an import nor a reset: draws, against
  any scope, and \<open>clearHistory\<close>.\<close>

fun quiet :: "call \<Rightarrow> bool" where
  "quiet (PickRandom now grp) = True"
| "quiet ClearHistory = True"
| "quiet c = False"

subsection \<open>Notions of the specification\<close>

text \<open>The sum of the call counters, the pool and the membership of a scope (\<open>None\<close> is
  the global scope), and the properties of pools and of the store that the specification
  calls invariants.\<close>

definition totalCalls :: "'g RosterManager \<Rightarrow> int" where
  "totalCalls s = sum_list (map callCount (students s))"

text \<open>By how much the counters exceed the length of the log.\<close>

definition gap :: "'g RosterManager \<Rightarrow> int" where
  "gap s = totalCalls s - int (length (history s))"

definition poolOf :: "string option \<Rightarrow> 'g RosterManager \<Rightarrow> nat list" where
  "poolOf scope s = (case scope of None \<Rightarrow> globalPool s | Some g \<Rightarrow> poolAt s g)"

definition members :: "string option \<Rightarrow> 'g RosterManager \<Rightarrow> nat list" where
  "members scope s =
     (case scope of
        None \<Rightarrow> [0 ..< length (students s)]
      | Some g \<Rightarrow> groupIndices g (students s))"

text \<open>How many draws the cycle of a scope still holds: what is left in its pool, or,
  when the pool is empty or absent and the next draw refills it, all members.\<close>

definition cycleRest :: "string option \<Rightarrow> 'g RosterManager \<Rightarrow> nat" where
  "cycleRest scope s =
     (if poolOf scope s = [] then length (members scope s) else length (poolOf scope s))"

definition memberNames :: "string option \<Rightarrow> 'g RosterManager \<Rightarrow> string set" where
  "memberNames scope s = (\<lambda>i. name (students s ! i)) ` set (members scope s)"

definition validPool :: "Student list \<Rightarrow> nat list \<Rightarrow> bool" where
  "validPool sts p \<longleftrightarrow> distinct p \<and> (\<forall>i \<in> set p. i < length sts)"

definition poolsValid :: "'g RosterManager \<Rightarrow> bool" where
  "poolsValid s \<longleftrightarrow>
     validPool (students s) (globalPool s) \<and>
     (\<forall>g p. groupPools s g = Some p \<longrightarrow> validPool (students s) p)"

definition uniqueNames :: "'g RosterManager \<Rightarrow> bool" where
  "uniqueNames s \<longleftrightarrow> distinct (map name (students s))"

text \<open>A group pool holds members of its group only.\<close>

definition poolsInScope :: "'g RosterManager \<Rightarrow> bool" where
  "poolsInScope s \<longleftrightarrow>
     (\<forall>g p. groupPools s g = Some p \<longrightarrow> (\<forall>i \<in> set p. group (students s ! i) = g))"

definition wellFormed :: "'g RosterManager \<Rightarrow> bool" where
  "wellFormed s \<longleftrightarrow> uniqueNames s \<and> poolsValid s \<and> poolsInScope s"

text \<open>A shuffle that reverses the order, one of the behaviours \<^verbatim>\<open>std::shuffle\<close> may
  show, used to run the model on examples. The generator is a counter of its uses.\<close>

definition reverseOrder :: "nat shuffler" where
  "reverseOrder g xs = (rev xs, g + 1)"

text \<open>The roster of the specification's examples: Alice and Bob in A1, Carol in A2.\<close>

definition roster3 :: "nat RosterManager" where
  "roster3 =
     \<lparr>students = [\<lparr>name = ''Alice'', group = ''A1'', callCount = 0\<rparr>,
                  \<lparr>name = ''Bob'', group = ''A1'', callCount = 0\<rparr>,
                  \<lparr>name = ''Carol'', group = ''A2'', callCount = 0\<rparr>],
      groupPools = Map.empty, globalPool = [], history = [], rng = 0\<rparr>"

text \<open>The same roster after one, two and three global draws at the clock readings 10, 20
  and 30, when the shuffle reverses: Carol, then Bob, then Alice.\<close>

definition afterOne :: "nat RosterManager" where
  "afterOne =
     \<lparr>students = [\<lparr>name = ''Alice'', group = ''A1'', callCount = 0\<rparr>,
                  \<lparr>name = ''Bob'', group = ''A1'', callCount = 0\<rparr>,
                  \<lparr>name = ''Carol'', group = ''A2'', callCount = 1\<rparr>],
      groupPools = Map.empty, globalPool = [1, 0],
      history = [\<lparr>cr_name = ''Carol'', cr_group = ''A2'', timestamp = 10\<rparr>], rng = 1\<rparr>"

definition afterTwo :: "nat RosterManager" where
  "afterTwo =
     \<lparr>students = [\<lparr>name = ''Alice'', group = ''A1'', callCount = 0\<rparr>,
                  \<lparr>name = ''Bob'', group = ''A1'', callCount = 1\<rparr>,
                  \<lparr>name = ''Carol'', group = ''A2'', callCount = 1\<rparr>],
      groupPools = Map.empty, globalPool = [0],
      history = [\<lparr>cr_name = ''Carol'', cr_group = ''A2'', timestamp = 10\<rparr>,
                 \<lparr>cr_name = ''Bob'', cr_group = ''A1'', timestamp = 20\<rparr>], rng = 1\<rparr>"

definition afterThree :: "nat RosterManager" where
  "afterThree =
     \<lparr>students = [\<lparr>name = ''Alice'', group = ''A1'', callCount = 1\<rparr>,
                  \<lparr>name = ''Bob'', group = ''A1'', callCount = 1\<rparr>,
                  \<lparr>name = ''Carol'', group = ''A2'', callCount = 1\<rparr>],
      groupPools = Map.empty, globalPool = [],
      history = [\<lparr>cr_name = ''Carol'', cr_group = ''A2'', timestamp = 10\<rparr>,
                 \<lparr>cr_name = ''Bob'', cr_group = ''A1'', timestamp = 20\<rparr>,
                 \<lparr>cr_name = ''Alice'', cr_group = ''A1'', timestamp = 30\<rparr>], rng = 1\<rparr>"

text \<open>What a draw against a scope whose pool is empty or absent has to do when it
  replenishes from the membership: it returns nobody only when the scope has no entity,
  and otherwise it returns an entity of the store with its counter raised, whose index
  together with the indices left in the pool is the membership of the scope. The only
  failure left to it is the overflow of that entity's counter.\<close>

definition drawsFromMembership ::
  "'g shuffler \<Rightarrow> int \<Rightarrow> string option \<Rightarrow> 'g RosterManager \<Rightarrow> bool" where
  "drawsFromMembership shuffle now scope s =
     (case pickRandom shuffle now scope s of
        Inl e \<Rightarrow> e = CounterOverflow
      | Inr (None, s') \<Rightarrow> members scope s = []
      | Inr (Some st, s') \<Rightarrow>
          (\<exists>idx. idx < length (students s) \<and>
             st = (students s ! idx)\<lparr>callCount := callCount (students s ! idx) + 1\<rparr> \<and>
             mset (idx # poolOf scope s') = mset (members scope s)))"

text \<open>Strings of blanks only, and strings that are not empty and neither begin nor end
  with a blank.\<close>

definition blank :: "string \<Rightarrow> bool" where
  "blank str \<longleftrightarrow> set str \<subseteq> set whitespace"

definition trimmed :: "string \<Rightarrow> bool" where
  "trimmed str \<longleftrightarrow> str \<noteq> [] \<and> hd str \<notin> set whitespace \<and> last str \<notin> set whitespace"

text \<open>A shuffle that reverses at its first, third, ... use and keeps the order at the
  others.\<close>

definition evenReverse :: "nat shuffler" where
  "evenReverse g xs = (if even g then rev xs else xs, g + 1)"

text \<open>The example roster after one global draw under that shuffle, which returns Carol
  and leaves Bob and Alice in the pool, followed by the insertion of Dave with
  \<open>refreshPools\<close> false.\<close>

definition staleCycle :: "nat RosterManager" where
  "staleCycle =
     \<lparr>students = [\<lparr>name = ''Alice'', group = ''A1'', callCount = 0\<rparr>,
                  \<lparr>name = ''Bob'', group = ''A1'', callCount = 0\<rparr>,
                  \<lparr>name = ''Carol'', group = ''A2'', callCount = 1\<rparr>,
                  \<lparr>name = ''Dave'', group = ''A1'', callCount = 0\<rparr>],
      groupPools = Map.empty, globalPool = [1, 0],
      history = [\<lparr>cr_name = ''Carol'', cr_group = ''A2'', timestamp = 10\<rparr>], rng = 1\<rparr>"

text \<open>After Dave has been inserted into \<open>afterOne\<close> with \<open>refreshPools\<close> true and a draw
  against group A1 at the clock reading 40 has returned him.\<close>

definition afterDaveA1 :: "nat RosterManager" where
  "afterDaveA1 =
     \<lparr>students = [\<lparr>name = ''Alice'', group = ''A1'', callCount = 0\<rparr>,
                  \<lparr>name = ''Bob'', group = ''A1'', callCount = 0\<rparr>,
                  \<lparr>name = ''Carol'', group = ''A2'', callCount = 1\<rparr>,
                  \<lparr>name = ''Dave'', group = ''A1'', callCount = 1\<rparr>],
      groupPools = [''A1'' \<mapsto> [1, 0]], globalPool = [],
      history = [\<lparr>cr_name = ''Carol'', cr_group = ''A2'', timestamp = 10\<rparr>,
                 \<lparr>cr_name = ''Dave'', cr_group = ''A1'', timestamp = 40\<rparr>], rng = 2\<rparr>"

text \<open>The example roster after a draw against A1 at 10, \<open>clearHistory\<close>, a global draw at
  15 and two more draws against A1 at 20 and 30, when the shuffle reverses.\<close>

definition afterMixed :: "nat RosterManager" where
  "afterMixed =
     \<lparr>students = [\<lparr>name = ''Alice'', group = ''A1'', callCount = 1\<rparr>,
                  \<lparr>name = ''Bob'', group = ''A1'', callCount = 2\<rparr>,
                  \<lparr>name = ''Carol'', group = ''A2'', callCount = 1\<rparr>],
      groupPools = [''A1'' \<mapsto> [0]], globalPool = [1, 0],
      history = [\<lparr>cr_name = ''Carol'', cr_group = ''A2'', timestamp = 15\<rparr>,
                 \<lparr>cr_name = ''Alice'', cr_group = ''A1'', timestamp = 20\<rparr>,
                 \<lparr>cr_name = ''Bob'', cr_group = ''A1'', timestamp = 30\<rparr>], rng = 3\<rparr>"

section \<open>Facts about the operations\<close>

subsection \<open>Insertion, history output, single draws\<close>

lemma addStudent_present:
  "nm \<in> name ` set (students s) \<Longrightarrow> addStudent nm grp rp s = (False, s)"
  by (auto simp: addStudent_def find_None_iff split: option.splits)

lemma addStudent_absent:
  "nm \<notin> name ` set (students s) \<Longrightarrow>
   addStudent nm grp rp s =
     (True, if rp then resetCycle (s\<lparr>students := students s @ [\<lparr>name = nm, group = grp, callCount = 0\<rparr>]\<rparr>)
            else s\<lparr>students := students s @ [\<lparr>name = nm, group = grp, callCount = 0\<rparr>]\<rparr>)"
  by (auto simp: addStudent_def find_None_iff Let_def split: option.splits)

lemma printLoop_all: "printLoop rs 0 cnt = map RecordLine rs"
  by (induction rs arbitrary: cnt) simp_all

lemma printLoop_take:
  "cnt < limit \<Longrightarrow> printLoop rs limit cnt = map RecordLine (take (limit - cnt) rs)"
proof (induction rs arbitrary: cnt)
  case Nil
  then show ?case by simp
next
  case (Cons r rs)
  show ?case
  proof (cases "limit \<le> cnt + 1")
    case True
    with Cons.prems have "limit - cnt = 1" by simp
    with True Cons.prems show ?thesis by simp
  next
    case False
    then have "cnt + 1 < limit" by simp
    from Cons.IH [OF this] False Cons.prems show ?thesis
      by (simp add: take_Cons' Suc_diff_Suc)
  qed
qed

lemma printHistory_eq:
  "history s \<noteq> [] \<Longrightarrow>
   printHistory limit s =
     map RecordLine (if limit = 0 then rev (history s) else take limit (rev (history s)))"
  using printLoop_take [of 0 limit "rev (history s)"]
  by (simp add: printHistory_def printLoop_all)

lemma consumeIndex_Inr:
  "consumeIndex now pool s = Inr (st, rest, s') \<Longrightarrow>
   \<exists>idx. pool = idx # rest \<and> idx < length (students s) \<and>
     st = (students s ! idx)\<lparr>callCount := callCount (students s ! idx) + 1\<rparr> \<and>
     s' = s\<lparr>students := (students s)[idx := st],
            history := history s @ [\<lparr>cr_name = name st, cr_group = group st, timestamp = now\<rparr>]\<rparr>"
  by (auto simp: consumeIndex_def Let_def split: list.splits if_splits)

lemma pickRandom_history:
  "pickRandom shuffle now grp s = Inr (Some st, s') \<Longrightarrow>
   history s' = history s @ [\<lparr>cr_name = name st, cr_group = group st, timestamp = now\<rparr>]"
  by (auto simp: pickRandom_def Let_def subscript_def refillGroupPool_def refillGlobalPool_def
      split: if_splits option.splits sum.splits dest!: consumeIndex_Inr)

lemma resetCycle_pools [simp]:
  "globalPool (resetCycle s) = []" "groupPools (resetCycle s) = Map.empty"
  "students (resetCycle s) = students s" "history (resetCycle s) = history s"
  by (simp_all add: resetCycle_def)

lemma poolOf_cleared:
  "globalPool s = [] \<Longrightarrow> groupPools s = Map.empty \<Longrightarrow> poolOf scope s = []"
  by (simp add: poolOf_def poolAt_def split: option.splits)

lemma groupIndices_append_new:
  "length sts \<in> set (groupIndices grp (sts @ [\<lparr>name = nm, group = grp, callCount = c\<rparr>]))"
  by (simp add: groupIndices_def)

lemma find_last_exists:
  "find_first_not_of str chars = Some i \<Longrightarrow>
   \<exists>j. find_last_not_of str chars = Some j \<and> i \<le> j \<and> j < length str"
proof (induction str arbitrary: i)
  case Nil
  then show ?case by simp
next
  case (Cons c cs)
  show ?case
  proof (cases "c \<in> set chars")
    case True
    with Cons.prems obtain k where k: "find_first_not_of cs chars = Some k" and i: "i = Suc k"
      by auto
    from Cons.IH [OF k] i show ?thesis by auto
  next
    case False
    with Cons.prems have i: "i = 0" by simp
    show ?thesis
    proof (cases "find_last_not_of cs chars")
      case None
      with False i show ?thesis by simp
    next
      case (Some j)
      have "j < length cs" if "find_last_not_of xs chars = Some j" "xs = cs" for xs
        using that(1) unfolding that(2) [symmetric]
        by (induction xs arbitrary: j) (auto split: option.splits if_splits)
      with Some i show ?thesis by simp
    qed
  qed
qed

subsection \<open>Replenishing a pool\<close>

lemma pickRandom_eq:
  "pickRandom shuffle now scope s =
     (if students s = [] then Inr (None, s)
      else if poolOf scope (replenish shuffle scope s) = []
        then Inr (None, replenish shuffle scope s)
      else
        (case consumeIndex now (poolOf scope (replenish shuffle scope s))
                (replenish shuffle scope s) of
           Inl e \<Rightarrow> Inl e
         | Inr (student, rest, s4) \<Rightarrow> Inr (Some student, storePool scope rest s4)))"
  by (cases scope)
    (simp_all add: pickRandom_def replenish_def storePool_def poolOf_def Let_def
      cong: sum.case_cong)

lemma permuting_set: "permuting shuffle \<Longrightarrow> set (fst (shuffle g xs)) = set xs"
  unfolding permuting_def by (metis mset_eq_setD)

lemma permuting_distinct:
  "permuting shuffle \<Longrightarrow> distinct (fst (shuffle g xs)) = distinct xs"
  unfolding permuting_def by (metis mset_eq_imp_distinct_iff)

lemma replenish_students [simp]: "students (replenish shuffle scope s) = students s"
  by (simp add: replenish_def subscript_def refillGroupPool_def refillGlobalPool_def Let_def
      split: option.splits)

lemma replenish_history [simp]: "history (replenish shuffle scope s) = history s"
  by (simp add: replenish_def subscript_def refillGroupPool_def refillGlobalPool_def Let_def
      split: option.splits)

lemma replenish_nonempty:
  "poolOf scope s \<noteq> [] \<Longrightarrow> replenish shuffle scope s = s"
  by (auto simp: replenish_def poolOf_def poolAt_def subscript_def split: option.splits)

lemma replenish_empty:
  assumes "permuting shuffle" "poolOf scope s = []"
  shows "mset (poolOf scope (replenish shuffle scope s)) = mset (members scope s)"
proof (cases scope)
  case None
  with assms show ?thesis
    by (simp add: replenish_def poolOf_def members_def refillGlobalPool_def Let_def permuting_def)
next
  case (Some g)
  with assms show ?thesis
    by (auto simp: replenish_def poolOf_def poolAt_def members_def refillGroupPool_def Let_def
        subscript_def permuting_def split: option.splits)
qed

subsection \<open>Well-formed states\<close>

lemma validPool_Nil [simp]: "validPool sts []"
  by (simp add: validPool_def)

lemma validPool_tl: "validPool sts (i # p) \<Longrightarrow> validPool sts p"
  by (simp add: validPool_def)

lemma wellFormed_new [simp]: "wellFormed (newRosterManager seed)"
  by (simp add: wellFormed_def uniqueNames_def poolsValid_def poolsInScope_def
      newRosterManager_def)

lemma wellFormed_resetCycle: "wellFormed s \<Longrightarrow> wellFormed (resetCycle s)"
  by (simp add: wellFormed_def uniqueNames_def poolsValid_def poolsInScope_def resetCycle_def)

lemma wellFormed_clearHistory: "wellFormed s \<Longrightarrow> wellFormed (clearHistory s)"
  by (simp add: wellFormed_def uniqueNames_def poolsValid_def poolsInScope_def
      clearHistory_def)

lemma wellFormed_append:
  assumes "wellFormed s" "nm \<notin> name ` set (students s)"
  shows "wellFormed (s\<lparr>students := students s @ [\<lparr>name = nm, group = grp, callCount = 0\<rparr>]\<rparr>)"
proof -
  from assms have "uniqueNames (s\<lparr>students := students s @ [\<lparr>name = nm, group = grp, callCount = 0\<rparr>]\<rparr>)"
    by (simp add: wellFormed_def uniqueNames_def)
  moreover from assms(1)
  have "poolsValid (s\<lparr>students := students s @ [\<lparr>name = nm, group = grp, callCount = 0\<rparr>]\<rparr>)"
    by (simp add: wellFormed_def poolsValid_def validPool_def) (meson less_SucI)
  moreover from assms(1)
  have "poolsInScope (s\<lparr>students := students s @ [\<lparr>name = nm, group = grp, callCount = 0\<rparr>]\<rparr>)"
    by (auto simp: wellFormed_def poolsValid_def poolsInScope_def validPool_def nth_append)
  ultimately show ?thesis by (simp add: wellFormed_def)
qed

lemma wellFormed_addStudent:
  "wellFormed s \<Longrightarrow> wellFormed (snd (addStudent nm grp rp s))"
  by (cases "nm \<in> name ` set (students s)")
    (simp_all add: addStudent_present addStudent_absent wellFormed_append wellFormed_resetCycle)

lemma loadLine_snd:
  "snd (loadLine line acc) = snd acc \<or>
   (\<exists>nm grp. snd (loadLine line acc) = snd (addStudent nm grp False (snd acc)))"
proof -
  have h: "snd (case addStudent nm grp False s of
          (True, s') \<Rightarrow> (stats\<lparr>added := added stats + 1\<rparr>, s')
        | (False, s') \<Rightarrow> (stats\<lparr>duplicates := duplicates stats + 1\<rparr>, s')) =
      snd (addStudent nm grp False s)" for nm grp and stats :: ImportStats and s :: "'a RosterManager"
    by (simp split: prod.splits bool.splits)
  show ?thesis
    by (auto simp: loadLine_def Let_def h split: option.splits)
qed

lemma wellFormed_loadLine:
  "wellFormed (snd acc) \<Longrightarrow> wellFormed (snd (loadLine line acc))"
  using loadLine_snd [of line acc] by (auto simp: wellFormed_addStudent)

lemma wellFormed_loadFromStream:
  "wellFormed (snd acc) \<Longrightarrow> wellFormed (snd (loadFromStream lines acc))"
  by (induction lines arbitrary: acc) (simp_all add: wellFormed_loadLine)

lemma wellFormed_importFromFile:
  "wellFormed s \<Longrightarrow> wellFormed (snd (importFromFile input s))"
  by (cases input)
    (simp_all add: importFromFile_def Let_def wellFormed_loadFromStream wellFormed_resetCycle)

lemma wellFormed_replenish:
  assumes "permuting shuffle" "wellFormed s"
  shows "wellFormed (replenish shuffle scope s)"
proof (cases scope)
  case None
  with assms show ?thesis
    by (auto simp: replenish_def refillGlobalPool_def Let_def wellFormed_def uniqueNames_def
        poolsValid_def poolsInScope_def validPool_def permuting_set permuting_distinct)
next
  case (Some g)
  with assms show ?thesis
    by (auto simp: replenish_def refillGroupPool_def subscript_def poolAt_def Let_def
        wellFormed_def uniqueNames_def poolsValid_def poolsInScope_def validPool_def
        permuting_set permuting_distinct groupIndices_def
        split: option.splits if_splits)
qed

lemma bump_name [simp]:
  "name ((xs[idx := (xs ! idx)\<lparr>callCount := c\<rparr>]) ! i) = name (xs ! i)"
  by (cases "i = idx"; cases "idx < length xs") (simp_all add: list_update_beyond)

lemma bump_group [simp]:
  "group ((xs[idx := (xs ! idx)\<lparr>callCount := c\<rparr>]) ! i) = group (xs ! i)"
  by (cases "i = idx"; cases "idx < length xs") (simp_all add: list_update_beyond)

lemma bump_names [simp]:
  "map name (xs[idx := (xs ! idx)\<lparr>callCount := c\<rparr>]) = map name xs"
  by (rule nth_equalityI) simp_all

lemma bump_groupIndices [simp]:
  "groupIndices g (xs[idx := (xs ! idx)\<lparr>callCount := c\<rparr>]) = groupIndices g xs"
  by (simp add: groupIndices_def)

lemma wellFormed_poolOf:
  "wellFormed s \<Longrightarrow> validPool (students s) (poolOf scope s)"
  by (auto simp: wellFormed_def poolsValid_def poolOf_def poolAt_def split: option.splits)

lemma wellFormed_poolOf_group:
  assumes "wellFormed s" "i \<in> set (poolOf (Some g) s)"
  shows "group (students s ! i) = g"
proof (cases "groupPools s g")
  case None
  with assms(2) show ?thesis by (simp add: poolOf_def poolAt_def)
next
  case (Some p)
  with assms(2) have "i \<in> set p" by (simp add: poolOf_def poolAt_def)
  moreover from assms(1) Some have "\<forall>i \<in> set p. group (students s ! i) = g"
    unfolding wellFormed_def poolsInScope_def by blast
  ultimately show ?thesis by blast
qed

lemma wellFormed_consume:
  assumes "wellFormed s" "poolOf scope s = idx # rest"
  shows "wellFormed (storePool scope rest
           (s\<lparr>students := (students s)[idx := (students s ! idx)\<lparr>callCount := c\<rparr>],
              history := h\<rparr>))"
proof (cases scope)
  case None
  with assms show ?thesis
    by (auto simp: wellFormed_def uniqueNames_def poolsValid_def poolsInScope_def
        validPool_def storePool_def poolOf_def)
next
  case (Some g)
  with assms(2) have g: "groupPools s g = Some (idx # rest)"
    by (simp add: poolOf_def poolAt_def split: option.splits)
  with assms(1) have "validPool (students s) (idx # rest)"
    unfolding wellFormed_def poolsValid_def by blast
  then have v: "validPool (students s) rest" by (rule validPool_tl)
  from assms(1) g have "\<forall>i \<in> set (idx # rest). group (students s ! i) = g"
    unfolding wellFormed_def poolsInScope_def by blast
  then have m: "\<forall>i \<in> set rest. group (students s ! i) = g" by simp
  from assms(1) v m Some show ?thesis
    by (simp add: wellFormed_def uniqueNames_def poolsValid_def poolsInScope_def
        validPool_def storePool_def)
qed

text \<open>What a draw does, by cases.\<close>

lemma pickRandom_cases:
  assumes "permuting shuffle" "wellFormed s"
  obtains
    (nobody) "pickRandom shuffle now scope s = Inr (None, s)" "students s = []"
  | (exhausted) "pickRandom shuffle now scope s = Inr (None, replenish shuffle scope s)"
      "poolOf scope (replenish shuffle scope s) = []"
  | (overflow) "pickRandom shuffle now scope s = Inl CounterOverflow"
  | (drawn) idx rest where
      "poolOf scope (replenish shuffle scope s) = idx # rest"
      "idx < length (students s)"
      "pickRandom shuffle now scope s =
         Inr (Some ((students s ! idx)\<lparr>callCount := callCount (students s ! idx) + 1\<rparr>),
           storePool scope rest
             (replenish shuffle scope s
                \<lparr>students := (students s)
                   [idx := (students s ! idx)\<lparr>callCount := callCount (students s ! idx) + 1\<rparr>],
                 history := history s @
                   [\<lparr>cr_name = name (students s ! idx), cr_group = group (students s ! idx),
                     timestamp = now\<rparr>]\<rparr>))"
proof (cases "students s = []")
  case True
  then show ?thesis using nobody by (simp add: pickRandom_eq)
next
  case ne: False
  let ?s3 = "replenish shuffle scope s"
  show ?thesis
  proof (cases "poolOf scope ?s3")
    case Nil
    with ne show ?thesis using exhausted by (simp add: pickRandom_eq)
  next
    case (Cons idx rest)
    from assms have "wellFormed ?s3" by (rule wellFormed_replenish)
    then have "validPool (students ?s3) (poolOf scope ?s3)" by (rule wellFormed_poolOf)
    with Cons have idx: "idx < length (students s)" by (simp add: validPool_def)
    show ?thesis
    proof (cases "callCount (students s ! idx) = INT_MAX")
      case True
      with ne Cons idx show ?thesis using overflow
        by (simp add: pickRandom_eq consumeIndex_def)
    next
      case False
      with ne Cons idx show ?thesis using drawn [of idx rest]
        by (simp add: pickRandom_eq consumeIndex_def Let_def)
    qed
  qed
qed

lemma pickRandom_wellFormed:
  assumes "permuting shuffle" "wellFormed s"
  shows "case pickRandom shuffle now scope s of
           Inl e \<Rightarrow> e = CounterOverflow
         | Inr r \<Rightarrow> wellFormed (snd r)"
  using assms
proof (cases rule: pickRandom_cases [where now = now and scope = scope])
  case nobody
  with assms show ?thesis by simp
next
  case exhausted
  with assms show ?thesis by (simp add: wellFormed_replenish)
next
  case overflow
  then show ?thesis by simp
next
  case (drawn idx rest)
  from assms have "wellFormed (replenish shuffle scope s)" by (rule wellFormed_replenish)
  from wellFormed_consume [OF this drawn(1)] drawn(3) show ?thesis by simp
qed

lemma exec_wellFormed:
  assumes "permuting shuffle" "wellFormed s"
  shows "case exec shuffle c s of Inl e \<Rightarrow> e = CounterOverflow | Inr s' \<Rightarrow> wellFormed s'"
proof (cases c)
  case (PickRandom now scope)
  with pickRandom_wellFormed [OF assms, of now scope] show ?thesis
    by (simp split: sum.splits)
qed (simp_all add: assms wellFormed_addStudent wellFormed_importFromFile
    wellFormed_resetCycle wellFormed_clearHistory)

lemma run_wellFormed:
  assumes "permuting shuffle" "wellFormed s"
  shows "case run shuffle calls s of Inl e \<Rightarrow> e = CounterOverflow | Inr s' \<Rightarrow> wellFormed s'"
  using assms(2)
proof (induction calls arbitrary: s)
  case Nil
  then show ?case by simp
next
  case (Cons c calls)
  show ?case
  proof (cases "exec shuffle c s")
    case (Inl e)
    with exec_wellFormed [OF assms(1) Cons.prems, of c] show ?thesis by simp
  next
    case (Inr s1)
    with exec_wellFormed [OF assms(1) Cons.prems, of c] have "wellFormed s1" by simp
    from Cons.IH [OF this] Inr show ?thesis by simp
  qed
qed

lemma permuting_reverseOrder [simp]: "permuting reverseOrder"
  by (simp add: permuting_def reverseOrder_def)

lemma poolOf_storePool [simp]: "poolOf scope (storePool scope rest s) = rest"
  by (simp add: poolOf_def poolAt_def storePool_def split: option.splits)

lemma students_storePool [simp]: "students (storePool scope rest s) = students s"
  by (simp add: storePool_def split: option.splits)

lemma history_storePool [simp]: "history (storePool scope rest s) = history s"
  by (simp add: storePool_def split: option.splits)

text \<open>A successful draw and an empty-handed one, without assumptions on the state.\<close>

lemma pickRandom_Some:
  assumes "pickRandom shuffle now scope s = Inr (Some st, s')"
  shows "\<exists>idx rest.
     poolOf scope (replenish shuffle scope s) = idx # rest \<and> idx < length (students s) \<and>
     st = (students s ! idx)\<lparr>callCount := callCount (students s ! idx) + 1\<rparr> \<and>
     s' = storePool scope rest
            (replenish shuffle scope s
               \<lparr>students := (students s)[idx := st],
                history := history s @
                  [\<lparr>cr_name = name st, cr_group = group st, timestamp = now\<rparr>]\<rparr>)"
proof -
  let ?s3 = "replenish shuffle scope s"
  from assms obtain rest s4 where
    c: "consumeIndex now (poolOf scope ?s3) ?s3 = Inr (st, rest, s4)"
    and s': "s' = storePool scope rest s4"
    by (auto simp: pickRandom_eq split: if_splits sum.splits)
  from consumeIndex_Inr [OF c] s' show ?thesis by auto
qed

lemma pickRandom_None:
  assumes "pickRandom shuffle now scope s = Inr (None, s')"
  shows "s' = s \<or> s' = replenish shuffle scope s"
  using assms by (auto simp: pickRandom_eq split: if_splits sum.splits)

lemma pickRandom_replenishes:
  assumes "permuting shuffle" "poolOf scope s = []"
    and "pickRandom shuffle now scope s = Inr (Some st, s')"
  shows "\<exists>idx. idx < length (students s) \<and>
     st = (students s ! idx)\<lparr>callCount := callCount (students s ! idx) + 1\<rparr> \<and>
     mset (idx # poolOf scope s') = mset (members scope s)"
proof -
  from pickRandom_Some [OF assms(3)] obtain idx rest where
    p: "poolOf scope (replenish shuffle scope s) = idx # rest"
    and i: "idx < length (students s)"
    and st: "st = (students s ! idx)\<lparr>callCount := callCount (students s ! idx) + 1\<rparr>"
    and s': "s' = storePool scope rest
            (replenish shuffle scope s
               \<lparr>students := (students s)[idx := st],
                history := history s @
                  [\<lparr>cr_name = name st, cr_group = group st, timestamp = now\<rparr>]\<rparr>)"
    by blast
  from s' have "poolOf scope s' = rest" by simp
  with replenish_empty [OF assms(1,2)] p i st show ?thesis by auto
qed

lemma refillGroupPool_mset:
  assumes "permuting shuffle"
  shows "mset (poolAt (refillGroupPool shuffle g s) g) = mset (groupIndices g (students s))"
proof (cases "groupIndices g (students s) = []")
  case True
  then show ?thesis by (simp add: refillGroupPool_def poolAt_def)
next
  case False
  with assms show ?thesis
    by (simp add: refillGroupPool_def Let_def poolAt_def permuting_def)
qed

subsection \<open>The gap between counters and history\<close>

lemma sum_callCount_bump:
  "idx < length xs \<Longrightarrow>
   sum_list (map callCount (xs[idx := (xs ! idx)\<lparr>callCount := callCount (xs ! idx) + 1\<rparr>])) =
     sum_list (map callCount xs) + 1"
proof (induction xs arbitrary: idx)
  case Nil
  then show ?case by simp
next
  case (Cons x xs)
  then show ?case by (cases idx) simp_all
qed

lemma gap_addStudent: "gap (snd (addStudent nm grp rp s)) = gap s"
  by (cases "nm \<in> name ` set (students s)")
    (simp_all add: addStudent_present addStudent_absent gap_def totalCalls_def)

lemma gap_loadLine: "gap (snd (loadLine line acc)) = gap (snd acc)"
  using loadLine_snd [of line acc] by (auto simp: gap_addStudent)

lemma gap_loadFromStream: "gap (snd (loadFromStream lines acc)) = gap (snd acc)"
  by (induction lines arbitrary: acc) (simp_all add: gap_loadLine)

lemma gap_resetCycle: "gap (resetCycle s) = gap s"
  by (simp add: gap_def totalCalls_def)

lemma gap_importFromFile: "gap (snd (importFromFile input s)) = gap s"
  by (cases input) (simp_all add: importFromFile_def Let_def gap_resetCycle gap_loadFromStream)

lemma gap_pickRandom:
  assumes "pickRandom shuffle now scope s = Inr (r, s')"
  shows "gap s' = gap s"
proof (cases r)
  case None
  with pickRandom_None [of shuffle now scope s s'] assms show ?thesis
    by (auto simp: gap_def totalCalls_def)
next
  case (Some st)
  with pickRandom_Some [of shuffle now scope s st s'] assms show ?thesis
    by (auto simp: gap_def totalCalls_def sum_callCount_bump)
qed

lemma gap_exec:
  assumes "exec shuffle c s = Inr s'"
  shows "gap s \<le> gap s' \<and> (c \<noteq> ClearHistory \<longrightarrow> gap s' = gap s)"
proof (cases c)
  case (PickRandom now scope)
  with assms obtain r where "pickRandom shuffle now scope s = Inr (r, s')"
    by (cases "pickRandom shuffle now scope s") auto
  then show ?thesis by (simp add: gap_pickRandom)
next
  case ClearHistory
  with assms show ?thesis by (auto simp: gap_def totalCalls_def clearHistory_def)
qed (use assms in \<open>auto simp: gap_addStudent gap_importFromFile gap_resetCycle\<close>)

lemma gap_run:
  assumes "run shuffle calls s = Inr s'"
  shows "gap s \<le> gap s' \<and> (ClearHistory \<notin> set calls \<longrightarrow> gap s' = gap s)"
  using assms
proof (induction calls arbitrary: s)
  case Nil
  then show ?case by simp
next
  case (Cons c calls)
  from Cons.prems obtain s1 where e: "exec shuffle c s = Inr s1"
    and r: "run shuffle calls s1 = Inr s'"
    by (cases "exec shuffle c s") auto
  from gap_exec [OF e] Cons.IH [OF r] show ?case by auto
qed

subsection \<open>Successive draws\<close>

lemma distinct_names_on:
  assumes "uniqueNames s" "validPool (students s) q"
  shows "distinct (map (\<lambda>i. name (students s ! i)) q)"
proof -
  from assms(1) have "inj_on (\<lambda>i. name (students s ! i)) {..< length (students s)}"
    by (auto simp: uniqueNames_def inj_on_def distinct_conv_nth)
  moreover from assms(2) have "set q \<subseteq> {..< length (students s)}" "distinct q"
    by (auto simp: validPool_def)
  ultimately show ?thesis
    by (simp add: distinct_map inj_on_subset)
qed

lemma members_distinct: "distinct (members scope s)"
  by (simp add: members_def groupIndices_def split: option.splits)

lemma members_valid: "validPool (students s) (members scope s)"
  by (auto simp: validPool_def members_def groupIndices_def split: option.splits)

lemma pool_subset_members:
  assumes "wellFormed s"
  shows "set (poolOf scope s) \<subseteq> set (members scope s)"
proof (cases scope)
  case None
  with wellFormed_poolOf [OF assms, of None] show ?thesis
    by (auto simp: validPool_def members_def)
next
  case (Some g)
  with wellFormed_poolOf [OF assms, of "Some g"] wellFormed_poolOf_group [OF assms, of _ g]
  show ?thesis
    by (auto simp: validPool_def members_def groupIndices_def)
qed

lemma runLog_run: "map_sum id snd (runLog shuffle cs s) = run shuffle cs s"
proof (induction cs arbitrary: s)
  case Nil
  then show ?case by simp
next
  case (Cons c cs)
  show ?case
  proof (cases c)
    case (PickRandom now grp)
    then show ?thesis
      by (auto simp: Cons.IH [symmetric] split: sum.splits prod.splits)
  qed (auto simp: Cons.IH [symmetric] split: sum.splits)
qed

lemma drawsOf_Cons:
  "drawsOf scope ((grp, r) # lg) = (if grp = scope then r # drawsOf scope lg else drawsOf scope lg)"
  by (simp add: drawsOf_def)

lemma drawsOf_Nil [simp]: "drawsOf scope [] = []"
  by (simp add: drawsOf_def)

text \<open>A draw leaves names, groups and membership as they are, and the pools of the other
  scopes as well.\<close>

lemma poolOf_replenish_other:
  "grp \<noteq> scope \<Longrightarrow> poolOf scope (replenish shuffle grp s) = poolOf scope s"
  by (cases grp; cases scope)
    (auto simp: replenish_def poolOf_def poolAt_def subscript_def refillGroupPool_def
      refillGlobalPool_def Let_def split: option.splits)

lemma poolOf_storePool_other:
  "grp \<noteq> scope \<Longrightarrow> poolOf scope (storePool grp rest s) = poolOf scope s"
  by (cases grp; cases scope) (auto simp: storePool_def poolOf_def poolAt_def)

lemma poolOf_students_history [simp]:
  "poolOf scope (s\<lparr>students := sts, history := h\<rparr>) = poolOf scope s"
  by (simp add: poolOf_def poolAt_def split: option.splits)

lemma pickRandom_other_scope:
  assumes "pickRandom shuffle now grp s = Inr (r, s1)" "grp \<noteq> scope"
  shows "poolOf scope s1 = poolOf scope s"
proof (cases r)
  case None
  with pickRandom_None [of shuffle now grp s s1] assms show ?thesis
    by (auto simp: poolOf_replenish_other)
next
  case (Some st)
  with pickRandom_Some [of shuffle now grp s st s1] assms show ?thesis
    by (auto simp: poolOf_replenish_other poolOf_storePool_other)
qed

lemma pickRandom_roster:
  assumes "pickRandom shuffle now grp s = Inr (r, s1)"
  shows "name (students s1 ! i) = name (students s ! i)"
    and "members scope s1 = members scope s"
proof -
  have "(\<forall>i. name (students s1 ! i) = name (students s ! i)) \<and>
      (\<forall>scope. members scope s1 = members scope s)"
  proof (cases r)
    case None
    with pickRandom_None [of shuffle now grp s s1] assms show ?thesis
      by (auto simp: members_def split: option.splits)
  next
    case (Some st)
    with pickRandom_Some [of shuffle now grp s st s1] assms show ?thesis
      by (auto simp: members_def split: option.splits)
  qed
  then show "name (students s1 ! i) = name (students s ! i)"
    and "members scope s1 = members scope s"
    by simp_all
qed

lemma pickRandom_keeps_wellFormed:
  assumes "permuting shuffle" "wellFormed s" "pickRandom shuffle now grp s = Inr (r, s1)"
  shows "wellFormed s1"
  using pickRandom_wellFormed [OF assms(1,2), of now grp] assms(3) by simp

lemma clearHistory_frame [simp]:
  "poolOf scope (clearHistory s) = poolOf scope s"
  "students (clearHistory s) = students s"
  "members scope (clearHistory s) = members scope s"
  by (simp_all add: clearHistory_def poolOf_def poolAt_def members_def split: option.splits)

text \<open>One step of a quiet sequence of calls, by cases.\<close>

lemma runLog_quiet_step:
  assumes "runLog shuffle (c # cs) s = Inr (lg, s')" "quiet c"
  obtains
    (clear) "c = ClearHistory" "runLog shuffle cs (clearHistory s) = Inr (lg, s')"
  | (draw) now grp r s1 lg1 where "c = PickRandom now grp"
      "pickRandom shuffle now grp s = Inr (r, s1)"
      "runLog shuffle cs s1 = Inr (lg1, s')" "lg = (grp, r) # lg1"
proof (cases c)
  case (PickRandom now grp)
  with assms(1) obtain r s1 lg1 where "pickRandom shuffle now grp s = Inr (r, s1)"
    "runLog shuffle cs s1 = Inr (lg1, s')" "lg = (grp, r) # lg1"
    by (auto split: sum.splits)
  with PickRandom show ?thesis by (rule draw)
next
  case ClearHistory
  with assms(1) show ?thesis by (intro clear) simp_all
qed (use assms(2) in simp_all)

text \<open>Draws that the pool can serve hand out its handles from the front.\<close>

lemma runLog_drain:
  assumes "permuting shuffle"
  shows "wellFormed s \<Longrightarrow> \<forall>c \<in> set cs. quiet c \<Longrightarrow> runLog shuffle cs s = Inr (lg, s') \<Longrightarrow>
     map (map_option name) (take (length (poolOf scope s)) (drawsOf scope lg)) =
       map (\<lambda>i. Some (name (students s ! i)))
         (take (length (drawsOf scope lg)) (poolOf scope s))"
proof (induction cs arbitrary: s lg)
  case Nil
  then show ?case by simp
next
  case (Cons c cs)
  from Cons.prems(2) have qc: "quiet c" and qcs: "\<forall>c \<in> set cs. quiet c" by simp_all
  from Cons.prems(3) qc show ?case
  proof (cases rule: runLog_quiet_step)
    case clear
    from Cons.prems(1) have "wellFormed (clearHistory s)" by (rule wellFormed_clearHistory)
    from Cons.IH [OF this qcs clear(2)] show ?thesis by simp
  next
    case (draw now grp r s1 lg1)
    from assms Cons.prems(1) draw(2) have wf1: "wellFormed s1"
      by (rule pickRandom_keeps_wellFormed)
    note ih = Cons.IH [OF wf1 qcs draw(3)]
    have nm: "name (students s1 ! i) = name (students s ! i)" for i
      using draw(2) by (rule pickRandom_roster)
    show ?thesis
    proof (cases "grp = scope")
      case False
      with pickRandom_other_scope [OF draw(2), of scope]
      have "poolOf scope s1 = poolOf scope s" by simp
      with ih nm False draw(4) show ?thesis by (simp add: drawsOf_Cons)
    next
      case True
      show ?thesis
      proof (cases "poolOf scope s")
        case Nil
        then show ?thesis by simp
      next
        case (Cons idx rest)
        then have same: "replenish shuffle scope s = s"
          by (simp add: replenish_nonempty)
        from wellFormed_poolOf [OF Cons.prems(1), of scope] Cons
        have idx: "idx < length (students s)" by (simp add: validPool_def)
        from assms Cons.prems(1) show ?thesis
        proof (cases rule: pickRandom_cases [where now = now and scope = scope])
          case nobody
          with idx show ?thesis by simp
        next
          case exhausted
          with same Cons show ?thesis by simp
        next
          case overflow
          with draw(2) True show ?thesis by simp
        next
          case (drawn idx' rest')
          with same Cons have eq: "idx' = idx" "rest' = rest" by simp_all
          from drawn(3) draw(2) True eq same
          have r: "r = Some ((students s ! idx)\<lparr>callCount := callCount (students s ! idx) + 1\<rparr>)"
            and s1: "poolOf scope s1 = rest"
            by auto
          from ih s1 nm have "map (map_option name) (take (length rest) (drawsOf scope lg1)) =
              map (\<lambda>i. Some (name (students s ! i))) (take (length (drawsOf scope lg1)) rest)"
            by simp
          with r True draw(4) Cons show ?thesis by (simp add: drawsOf_Cons)
        qed
      qed
    qed
  qed
qed

text \<open>From an empty pool of a scope that has members: one full cycle.\<close>

lemma runLog_cycle:
  assumes "permuting shuffle"
  shows "wellFormed s \<Longrightarrow> \<forall>c \<in> set cs. quiet c \<Longrightarrow> poolOf scope s = [] \<Longrightarrow>
     members scope s \<noteq> [] \<Longrightarrow> runLog shuffle cs s = Inr (lg, s') \<Longrightarrow>
     \<exists>q. map (map_option name) (take (length (members scope s)) (drawsOf scope lg)) =
            map (\<lambda>i. Some (name (students s ! i))) q \<and>
          length q = min (length (drawsOf scope lg)) (length (members scope s)) \<and>
          distinct q \<and> set q \<subseteq> set (members scope s) \<and>
          (length (members scope s) \<le> length (drawsOf scope lg) \<longrightarrow>
             set q = set (members scope s))"
proof (induction cs arbitrary: s lg)
  case Nil
  then show ?case by (auto intro!: exI [of _ "[]"])
next
  case (Cons c cs)
  from Cons.prems(2) have qc: "quiet c" and qcs: "\<forall>c \<in> set cs. quiet c" by simp_all
  from Cons.prems(5) qc show ?case
  proof (cases rule: runLog_quiet_step)
    case clear
    from Cons.prems(1) have "wellFormed (clearHistory s)" by (rule wellFormed_clearHistory)
    from Cons.IH [OF this qcs _ _ clear(2)] Cons.prems(3,4) show ?thesis by simp
  next
    case (draw now grp r s1 lg1)
    from assms Cons.prems(1) draw(2) have wf1: "wellFormed s1"
      by (rule pickRandom_keeps_wellFormed)
    have nm: "name (students s1 ! i) = name (students s ! i)" for i
      using draw(2) by (rule pickRandom_roster)
    have mem: "members scope s1 = members scope s"
      using draw(2) by (rule pickRandom_roster)
    show ?thesis
    proof (cases "grp = scope")
      case False
      with pickRandom_other_scope [OF draw(2), of scope] Cons.prems(3)
      have "poolOf scope s1 = []" by simp
      from Cons.IH [OF wf1 qcs this _ draw(3)] Cons.prems(4) mem nm False draw(4)
      show ?thesis by (simp add: drawsOf_Cons)
    next
      case True
      from replenish_empty [OF assms Cons.prems(3)]
      have m: "mset (poolOf scope (replenish shuffle scope s)) = mset (members scope s)" .
      from assms Cons.prems(1) show ?thesis
      proof (cases rule: pickRandom_cases [where now = now and scope = scope])
        case nobody
        with Cons.prems(4) show ?thesis
          by (simp add: members_def groupIndices_def split: option.splits)
      next
        case exhausted
        with m Cons.prems(4) show ?thesis by simp
      next
        case overflow
        with draw(2) True show ?thesis by simp
      next
        case (drawn idx rest)
        from drawn(3) draw(2) True
        have r: "r = Some ((students s ! idx)\<lparr>callCount := callCount (students s ! idx) + 1\<rparr>)"
          and p1: "poolOf scope s1 = rest"
          by auto
        from m drawn(1) have sz: "length (members scope s) = Suc (length rest)"
          by (metis length_Cons size_mset)
        let ?ds = "drawsOf scope lg1"
        let ?q = "idx # take (length ?ds) rest"
        from runLog_drain [OF assms wf1 qcs draw(3), of scope] p1 nm
        have "map (map_option name) (take (length rest) ?ds) =
            map (\<lambda>i. Some (name (students s ! i))) (take (length ?ds) rest)"
          by simp
        with r True draw(4) sz
        have names: "map (map_option name) (take (length (members scope s)) (drawsOf scope lg)) =
            map (\<lambda>i. Some (name (students s ! i))) ?q"
          by (simp add: drawsOf_Cons)
        from m drawn(1) have dist: "distinct (idx # rest)"
          by (metis members_distinct mset_eq_imp_distinct_iff)
        then have d: "distinct ?q" by (auto dest: in_set_takeD)
        from m drawn(1) have sub: "set (idx # rest) = set (members scope s)"
          by (metis mset_eq_setD)
        then have s: "set ?q \<subseteq> set (members scope s)" by (auto dest: in_set_takeD)
        from True draw(4) sz
        have l: "length ?q = min (length (drawsOf scope lg)) (length (members scope s))"
          by (simp add: drawsOf_Cons)
        from True draw(4) sz sub
        have f: "length (members scope s) \<le> length (drawsOf scope lg) \<longrightarrow>
            set ?q = set (members scope s)"
          by (auto simp: drawsOf_Cons)
        from names l d s f show ?thesis by blast
      qed
    qed
  qed
qed

text \<open>Both together: the draws that fall into the cycle at hand.\<close>

lemma runLog_cycleRest:
  assumes "permuting shuffle" "wellFormed s" "\<forall>c \<in> set cs. quiet c"
    and "runLog shuffle cs s = Inr (lg, s')"
  shows "\<exists>q. map (map_option name) (take (cycleRest scope s) (drawsOf scope lg)) =
            map (\<lambda>i. Some (name (students s ! i))) q \<and>
          length q = min (length (drawsOf scope lg)) (cycleRest scope s) \<and>
          distinct q \<and> set q \<subseteq> set (members scope s) \<and>
          (poolOf scope s = [] \<and> length (members scope s) \<le> length (drawsOf scope lg) \<longrightarrow>
             set q = set (members scope s))"
proof (cases "poolOf scope s = []")
  case False
  let ?q = "take (length (drawsOf scope lg)) (poolOf scope s)"
  from False have c: "cycleRest scope s = length (poolOf scope s)"
    by (simp add: cycleRest_def)
  from runLog_drain [OF assms(1,2,3,4), of scope] c
  have "map (map_option name) (take (cycleRest scope s) (drawsOf scope lg)) =
      map (\<lambda>i. Some (name (students s ! i))) ?q"
    by simp
  moreover from wellFormed_poolOf [OF assms(2), of scope] have "distinct ?q"
    by (simp add: validPool_def)
  moreover from pool_subset_members [OF assms(2), of scope]
  have "set ?q \<subseteq> set (members scope s)"
    by (meson set_take_subset subset_trans)
  moreover from c have "length ?q = min (length (drawsOf scope lg)) (cycleRest scope s)"
    by simp
  ultimately show ?thesis using False by blast
next
  case True
  then have c: "cycleRest scope s = length (members scope s)"
    by (simp add: cycleRest_def)
  show ?thesis
  proof (cases "members scope s = []")
    case True
    with c show ?thesis by (auto intro!: exI [of _ "[]"])
  next
    case False
    from runLog_cycle [OF assms(1,2,3) True False assms(4)] c show ?thesis by auto
  qed
qed

subsection \<open>A draw from an empty pool\<close>

lemma drawsFromMembership_fresh:
  assumes "permuting shuffle" "poolOf scope s = []"
  shows "drawsFromMembership shuffle now scope s"
proof (cases "pickRandom shuffle now scope s")
  case (Inl e)
  let ?s3 = "replenish shuffle scope s"
  from Inl obtain idx rest where p: "poolOf scope ?s3 = idx # rest"
    and c: "consumeIndex now (idx # rest) ?s3 = Inl e"
    by (cases "poolOf scope ?s3") (auto simp: pickRandom_eq split: if_splits sum.splits)
  from replenish_empty [OF assms] p have "idx \<in> set (members scope s)"
    by (metis list.set_intros(1) mset_eq_setD)
  with members_valid [of s scope] have "idx < length (students s)"
    by (simp add: validPool_def)
  with c have "e = CounterOverflow"
    by (simp add: consumeIndex_def Let_def split: if_splits)
  with Inl show ?thesis by (simp add: drawsFromMembership_def)
next
  case (Inr p)
  obtain r s' where p: "p = (r, s')" by (cases p)
  show ?thesis
  proof (cases r)
    case None
    with Inr p have d: "pickRandom shuffle now scope s = Inr (None, s')" by simp
    have "members scope s = []"
    proof (cases "students s = []")
      case True
      then show ?thesis by (simp add: members_def groupIndices_def split: option.splits)
    next
      case False
      with d have "poolOf scope (replenish shuffle scope s) = []"
        by (auto simp: pickRandom_eq split: if_splits sum.splits)
      with replenish_empty [OF assms] show ?thesis by simp
    qed
    with d show ?thesis by (simp add: drawsFromMembership_def)
  next
    case (Some st)
    with Inr p have d: "pickRandom shuffle now scope s = Inr (Some st, s')" by simp
    from pickRandom_replenishes [OF assms d] d show ?thesis
      by (simp add: drawsFromMembership_def)
  qed
qed

subsection \<open>Trimming and the loader\<close>

lemma first_not_of_None:
  "find_first_not_of str chars = None \<Longrightarrow> set str \<subseteq> set chars"
  by (induction str) (auto split: if_splits)

lemma first_not_of_Some:
  "find_first_not_of str chars = Some i \<Longrightarrow>
   i < length str \<and> str ! i \<notin> set chars \<and> set (take i str) \<subseteq> set chars"
proof (induction str arbitrary: i)
  case Nil
  then show ?case by simp
next
  case (Cons c cs)
  show ?case
  proof (cases "c \<in> set chars")
    case True
    with Cons.prems obtain k where k: "find_first_not_of cs chars = Some k" and i: "i = Suc k"
      by auto
    from Cons.IH [OF k] i True show ?thesis by simp
  next
    case False
    with Cons.prems show ?thesis by simp
  qed
qed

lemma last_not_of_None:
  "find_last_not_of str chars = None \<Longrightarrow> set str \<subseteq> set chars"
  by (induction str) (auto split: option.splits if_splits)

lemma last_not_of_Some:
  "find_last_not_of str chars = Some j \<Longrightarrow>
   j < length str \<and> str ! j \<notin> set chars \<and> set (drop (Suc j) str) \<subseteq> set chars"
proof (induction str arbitrary: j)
  case Nil
  then show ?case by simp
next
  case (Cons c cs)
  show ?case
  proof (cases "find_last_not_of cs chars")
    case None
    with Cons.prems have "j = 0" "c \<notin> set chars" by (auto split: if_splits)
    with last_not_of_None [OF None] show ?thesis by simp
  next
    case (Some k)
    with Cons.prems have "j = Suc k" by simp
    with Cons.IH [OF Some] show ?thesis by simp
  qed
qed

lemma trim_decomposition:
  "\<exists>a b. str = a @ trim str @ b \<and> blank a \<and> blank b \<and> (trim str = [] \<or> trimmed (trim str))"
proof (cases "find_first_not_of str whitespace")
  case None
  then have "trim str = []" by (simp add: trim_def)
  with first_not_of_None [OF None] show ?thesis
    by (intro exI [of _ str] exI [of _ "[]"]) (simp add: blank_def)
next
  case (Some i)
  from find_last_exists [OF Some] obtain j where
    j: "find_last_not_of str whitespace = Some j" and ij: "i \<le> j" and jl: "j < length str"
    by blast
  let ?t = "take (j - i + 1) (drop i str)"
  from Some j have t: "trim str = ?t" by (simp add: trim_def substr_def)
  from ij have "drop (j - i + 1) (drop i str) = drop (Suc j) str" by simp
  then have "drop i str = ?t @ drop (Suc j) str"
    by (metis append_take_drop_id)
  then have dec: "str = take i str @ ?t @ drop (Suc j) str"
    by (metis append_take_drop_id)
  from ij jl have ne: "?t \<noteq> []" by simp
  from ij jl have "hd ?t = str ! i" by (simp add: hd_drop_conv_nth)
  with first_not_of_Some [OF Some] have h: "hd ?t \<notin> set whitespace" by simp
  from ij jl have "length ?t = j - i + 1" by simp
  with ne have "last ?t = ?t ! (j - i)" by (simp add: last_conv_nth)
  with ij jl have "last ?t = str ! j" by simp
  with last_not_of_Some [OF j] have l: "last ?t \<notin> set whitespace" by simp
  from first_not_of_Some [OF Some] have a: "blank (take i str)" by (simp add: blank_def)
  from last_not_of_Some [OF j] have b: "blank (drop (Suc j) str)" by (simp add: blank_def)
  from ne h l have "trimmed ?t" by (simp add: trimmed_def)
  with dec a b t show ?thesis
    by (intro exI [of _ "take i str"] exI [of _ "drop (Suc j) str"]) simp
qed

lemma find_char_Some:
  "find_char str ch = Some k \<Longrightarrow>
   str = take k str @ ch # drop (Suc k) str \<and> ch \<notin> set (take k str)"
proof (induction str arbitrary: k)
  case Nil
  then show ?case by simp
next
  case (Cons c cs)
  show ?case
  proof (cases "c = ch")
    case True
    with Cons.prems show ?thesis by simp
  next
    case False
    with Cons.prems obtain m where m: "find_char cs ch = Some m" and k: "k = Suc m"
      by auto
    from Cons.IH [OF m] k False show ?thesis by simp
  qed
qed

lemma loadLine_students:
  "students (snd (loadLine line (stats, s))) =
     (if trim line = [] \<or> hd (trim line) = CHR ''#'' then students s
      else
        (case find_char (trim line) CHR '','' of
           None \<Rightarrow> students s
         | Some k \<Rightarrow>
             if trim (take k (trim line)) = [] \<or> trim (drop (Suc k) (trim line)) = []
             then students s
             else students (snd (addStudent (trim (take k (trim line)))
                    (trim (drop (Suc k) (trim line))) False s))))"
proof -
  have h: "snd (case addStudent nm grp False s of
          (True, s') \<Rightarrow> (stats\<lparr>added := added stats + 1\<rparr>, s')
        | (False, s') \<Rightarrow> (stats\<lparr>duplicates := duplicates stats + 1\<rparr>, s')) =
      snd (addStudent nm grp False s)" for nm grp
    by (simp split: prod.splits bool.splits)
  show ?thesis
    by (simp add: loadLine_def Let_def substr_def h split: option.splits)
qed

lemma trim_nonempty:
  assumes "trim str \<noteq> []"
  obtains a b where "str = a @ trim str @ b" "blank a" "blank b" "trimmed (trim str)"
  using trim_decomposition [of str] assms by blast

lemma fields_of_line:
  "ln = a0 @ t @ d0 \<Longrightarrow> t = x @ ch # y \<Longrightarrow> x = a1 @ n @ b1 \<Longrightarrow> y = c1 @ g @ d1 \<Longrightarrow>
   ln = (a0 @ a1) @ n @ b1 @ ch # c1 @ g @ (d1 @ d0)"
  by simp

text \<open>Whatever the loader adds for a line is the pair of fields of that line, stripped
  of the blanks around them, and neither field is empty.\<close>

lemma loadLine_adds_trimmed:
  "students (snd (loadLine line (stats, s))) = students s \<or>
   (\<exists>a nm b c grp d. line = a @ nm @ b @ CHR '','' # c @ grp @ d \<and>
      blank a \<and> blank b \<and> blank c \<and> blank d \<and> trimmed nm \<and> trimmed grp \<and>
      CHR '','' \<notin> set nm \<and>
      students (snd (loadLine line (stats, s))) =
        students s @ [\<lparr>name = nm, group = grp, callCount = 0\<rparr>])"
proof (cases "students (snd (loadLine line (stats, s))) = students s")
  case True
  then show ?thesis by (rule disjI1)
next
  case changed: False
  let ?t = "trim line"
  from changed obtain k where k: "find_char ?t CHR '','' = Some k"
    by (cases "find_char ?t CHR '',''") (simp_all add: loadLine_students split: if_splits)
  let ?nm = "trim (take k ?t)"
  let ?grp = "trim (drop (Suc k) ?t)"
  from changed k have nm: "?nm \<noteq> []"
    by (simp add: loadLine_students split: if_splits)
  from changed k have grp: "?grp \<noteq> []"
    by (simp add: loadLine_students split: if_splits)
  from changed k have st: "students (snd (loadLine line (stats, s))) =
      students (snd (addStudent ?nm ?grp False s))"
    by (simp add: loadLine_students split: if_splits)
  have "?nm \<notin> name ` set (students s)"
  proof
    assume "?nm \<in> name ` set (students s)"
    then have "addStudent ?nm ?grp False s = (False, s)" by (rule addStudent_present)
    with st changed show False by simp
  qed
  from addStudent_absent [OF this, of ?grp False]
  have "addStudent ?nm ?grp False s =
      (True, s\<lparr>students := students s @ [\<lparr>name = ?nm, group = ?grp, callCount = 0\<rparr>]\<rparr>)"
    by (simp only: if_False)
  with st have app: "students (snd (loadLine line (stats, s))) =
      students s @ [\<lparr>name = ?nm, group = ?grp, callCount = 0\<rparr>]"
    by simp
  from changed have "?t \<noteq> []"
    by (simp add: loadLine_students split: if_splits)
  then obtain a0 d0 where l: "line = a0 @ ?t @ d0" and a0: "blank a0" and d0: "blank d0"
    by (rule trim_nonempty)
  from find_char_Some [OF k] have t: "?t = take k ?t @ CHR '','' # drop (Suc k) ?t"
    and nc: "CHR '','' \<notin> set (take k ?t)"
    by (rule conjunct1, rule conjunct2)
  from nm obtain a1 b1 where
    f1: "take k ?t = a1 @ ?nm @ b1" and a1: "blank a1" and b1: "blank b1"
    and t1: "trimmed ?nm"
    by (rule trim_nonempty)
  from grp obtain c1 d1 where
    f2: "drop (Suc k) ?t = c1 @ ?grp @ d1" and c1: "blank c1" and d1: "blank d1"
    and t2: "trimmed ?grp"
    by (rule trim_nonempty)
  from l t f1 f2 have line: "line = (a0 @ a1) @ ?nm @ b1 @ CHR '','' # c1 @ ?grp @ (d1 @ d0)"
    by (rule fields_of_line)
  from a0 a1 have a: "blank (a0 @ a1)" by (simp add: blank_def)
  from d0 d1 have d: "blank (d1 @ d0)" by (simp add: blank_def)
  have "set ?nm \<subseteq> set (take k ?t)"
    by (subst (2) f1) auto
  with nc have nc': "CHR '','' \<notin> set ?nm" by blast
  from line a b1 c1 d t1 t2 nc' app show ?thesis
    by (intro disjI2 exI [of _ "a0 @ a1"] exI [of _ ?nm] exI [of _ b1] exI [of _ c1]
        exI [of _ ?grp] exI [of _ "d1 @ d0"] conjI)
qed

subsection \<open>The example roster\<close>

lemma run_adds_roster3:
  "run shuffle [AddStudent ''Alice'' ''A1'' True, AddStudent ''Bob'' ''A1'' True,
      AddStudent ''Carol'' ''A2'' True] (newRosterManager 0) = Inr roster3"
  by (simp add: addStudent_def newRosterManager_def resetCycle_def roster3_def)

lemma draw_global_roster3:
  "pickRandom reverseOrder 10 None roster3 =
     Inr (Some \<lparr>name = ''Carol'', group = ''A2'', callCount = 1\<rparr>,
       \<lparr>students = [\<lparr>name = ''Alice'', group = ''A1'', callCount = 0\<rparr>,
                    \<lparr>name = ''Bob'', group = ''A1'', callCount = 0\<rparr>,
                    \<lparr>name = ''Carol'', group = ''A2'', callCount = 1\<rparr>],
        groupPools = Map.empty, globalPool = [1, 0],
        history = [\<lparr>cr_name = ''Carol'', cr_group = ''A2'', timestamp = 10\<rparr>], rng = 1\<rparr>)"
  by (simp add: pickRandom_def roster3_def reverseOrder_def refillGlobalPool_def
      consumeIndex_def Let_def INT_MAX_def)

lemma members_roster3:
  "members (Some ''A1'') roster3 = [0, 1]" "members None roster3 = [0, 1, 2]"
  "poolOf scope roster3 = []"
  by (simp_all add: members_def groupIndices_def roster3_def poolOf_def poolAt_def
      upt_rec [of 0] upt_rec [of 1] upt_rec [of 2] upt_rec [of 3] split: option.splits)


lemma run_afterOne:
  "run reverseOrder [AddStudent ''Alice'' ''A1'' True, AddStudent ''Bob'' ''A1'' True,
      AddStudent ''Carol'' ''A2'' True, PickRandom 10 None] (newRosterManager 0) =
     Inr afterOne"
  using run_adds_roster3 [of reverseOrder]
  by (simp add: draw_global_roster3 afterOne_def split: sum.splits)

lemma named_results:
  assumes "map (map_option f) rs = map (\<lambda>i. Some (g i)) q"
  shows "rs = map Some (map the rs)" "map f (map the rs) = map g q"
proof -
  from assms have len: "length rs = length q" by (metis length_map)
  have *: "rs ! k = Some (the (rs ! k)) \<and> f (the (rs ! k)) = g (q ! k)" if "k < length rs" for k
  proof -
    from assms that len have "map_option f (rs ! k) = Some (g (q ! k))"
      by (metis nth_map)
    then show ?thesis by (cases "rs ! k") auto
  qed
  from * show "rs = map Some (map the rs)"
    by (intro nth_equalityI) simp_all
  from * len show "map f (map the rs) = map g q"
    by (intro nth_equalityI) simp_all
qed


lemma permuting_evenReverse [simp]: "permuting evenReverse"
  by (simp add: permuting_def evenReverse_def)

lemma run_staleCycle:
  "run evenReverse [AddStudent ''Alice'' ''A1'' True, AddStudent ''Bob'' ''A1'' True,
      AddStudent ''Carol'' ''A2'' True, PickRandom 10 None, AddStudent ''Dave'' ''A1'' False]
     (newRosterManager 0) = Inr staleCycle"
  by (simp add: addStudent_def newRosterManager_def resetCycle_def pickRandom_def
      evenReverse_def refillGlobalPool_def consumeIndex_def Let_def INT_MAX_def
      staleCycle_def)

lemma log_mixed:
  "runLog reverseOrder [PickRandom 10 (Some ''A1''), ClearHistory, PickRandom 15 None,
      PickRandom 20 (Some ''A1''), PickRandom 30 (Some ''A1'')] roster3 =
     Inr ([(Some ''A1'', Some \<lparr>name = ''Bob'', group = ''A1'', callCount = 1\<rparr>),
           (None, Some \<lparr>name = ''Carol'', group = ''A2'', callCount = 1\<rparr>),
           (Some ''A1'', Some \<lparr>name = ''Alice'', group = ''A1'', callCount = 1\<rparr>),
           (Some ''A1'', Some \<lparr>name = ''Bob'', group = ''A1'', callCount = 2\<rparr>)],
          afterMixed)"
  by (simp add: pickRandom_def roster3_def reverseOrder_def refillGroupPool_def
      refillGlobalPool_def groupIndices_def subscript_def poolAt_def consumeIndex_def
      clearHistory_def Let_def INT_MAX_def afterMixed_def)

lemma draw_A1_after_Dave:
  "pickRandom reverseOrder 40 (Some ''A1'') (snd (addStudent ''Dave'' ''A1'' True afterOne)) =
     Inr (Some \<lparr>name = ''Dave'', group = ''A1'', callCount = 1\<rparr>, afterDaveA1)"
  by (simp add: addStudent_def afterOne_def afterDaveA1_def resetCycle_def pickRandom_def
      reverseOrder_def refillGroupPool_def groupIndices_def subscript_def poolAt_def
      consumeIndex_def Let_def INT_MAX_def)

section \<open>The claims of the specification\<close>

subsection \<open>Insertion\<close>

text \<open>
  Claim C6. When the identity is already in the store, \<open>addStudent\<close> returns false and
  the list of entities, hence the group and the counter of the entity that has the
  identity, is as before, whatever the group argument. When the identity is not in the
  store, \<open>addStudent\<close> returns true and the list is the old one followed by one new entity
  with that identity, that group and \<open>callCount = 0\<close>.
\<close>

theorem addStudent_unique_insert:
  "(nm \<in> name ` set (students s) \<longrightarrow>
      fst (addStudent nm grp refreshPools s) = False \<and>
      students (snd (addStudent nm grp refreshPools s)) = students s) \<and>
   (nm \<notin> name ` set (students s) \<longrightarrow>
      fst (addStudent nm grp refreshPools s) = True \<and>
      students (snd (addStudent nm grp refreshPools s)) =
        students s @ [\<lparr>name = nm, group = grp, callCount = 0\<rparr>])"
  by (simp add: addStudent_present addStudent_absent)

theorem addStudent_unique_insert_witness:
  "fst (addStudent ''Bob'' ''A1'' True
      \<lparr>students = [\<lparr>name = ''Bob'', group = ''B2'', callCount = 3\<rparr>], groupPools = Map.empty,
        globalPool = [0], history = [], rng = (0::nat)\<rparr>) = False \<and>
   students (snd (addStudent ''Bob'' ''A1'' True
      \<lparr>students = [\<lparr>name = ''Bob'', group = ''B2'', callCount = 3\<rparr>], groupPools = Map.empty,
        globalPool = [0], history = [], rng = (0::nat)\<rparr>)) =
     [\<lparr>name = ''Bob'', group = ''B2'', callCount = 3\<rparr>] \<and>
   fst (addStudent ''Eve'' ''A1'' True
      \<lparr>students = [\<lparr>name = ''Bob'', group = ''B2'', callCount = 3\<rparr>], groupPools = Map.empty,
        globalPool = [0], history = [], rng = (0::nat)\<rparr>) = True \<and>
   students (snd (addStudent ''Eve'' ''A1'' True
      \<lparr>students = [\<lparr>name = ''Bob'', group = ''B2'', callCount = 3\<rparr>], groupPools = Map.empty,
        globalPool = [0], history = [], rng = (0::nat)\<rparr>)) =
     [\<lparr>name = ''Bob'', group = ''B2'', callCount = 3\<rparr>,
      \<lparr>name = ''Eve'', group = ''A1'', callCount = 0\<rparr>]"
  using addStudent_unique_insert [of "''Bob''"
      "\<lparr>students = [\<lparr>name = ''Bob'', group = ''B2'', callCount = 3\<rparr>], groupPools = Map.empty,
        globalPool = [0], history = [], rng = (0::nat)\<rparr>" "''A1''" True]
    addStudent_unique_insert [of "''Eve''"
      "\<lparr>students = [\<lparr>name = ''Bob'', group = ''B2'', callCount = 3\<rparr>], groupPools = Map.empty,
        globalPool = [0], history = [], rng = (0::nat)\<rparr>" "''A1''" True]
  by simp

text \<open>
  Claim C9. An insert of an identity that is already present returns false and leaves the
  whole manager as it was: entities, history, global pool, group pools and generator.
  This holds with \<open>refreshPools\<close> true as well: the pools are not invalidated.
\<close>

theorem duplicate_insert_changes_nothing:
  "nm \<in> name ` set (students s) \<Longrightarrow> addStudent nm grp refreshPools s = (False, s)"
  by (rule addStudent_present)

theorem duplicate_insert_changes_nothing_witness:
  "''Bob'' \<in> name ` set (students
      \<lparr>students = [\<lparr>name = ''Bob'', group = ''B2'', callCount = 3\<rparr>],
        groupPools = [''B2'' \<mapsto> [0]], globalPool = [0],
        history = [\<lparr>cr_name = ''Bob'', cr_group = ''B2'', timestamp = 7\<rparr>], rng = (0::nat)\<rparr>) \<and>
   addStudent ''Bob'' ''A1'' True
      \<lparr>students = [\<lparr>name = ''Bob'', group = ''B2'', callCount = 3\<rparr>],
        groupPools = [''B2'' \<mapsto> [0]], globalPool = [0],
        history = [\<lparr>cr_name = ''Bob'', cr_group = ''B2'', timestamp = 7\<rparr>], rng = (0::nat)\<rparr> =
     (False,
      \<lparr>students = [\<lparr>name = ''Bob'', group = ''B2'', callCount = 3\<rparr>],
        groupPools = [''B2'' \<mapsto> [0]], globalPool = [0],
        history = [\<lparr>cr_name = ''Bob'', cr_group = ''B2'', timestamp = 7\<rparr>], rng = (0::nat)\<rparr>)"
proof -
  have h: "''Bob'' \<in> name ` set (students
      \<lparr>students = [\<lparr>name = ''Bob'', group = ''B2'', callCount = 3\<rparr>],
        groupPools = [''B2'' \<mapsto> [0]], globalPool = [0],
        history = [\<lparr>cr_name = ''Bob'', cr_group = ''B2'', timestamp = 7\<rparr>], rng = (0::nat)\<rparr>)"
    by simp
  from duplicate_insert_changes_nothing [OF h, of "''A1''" True] h show ?thesis
    by simp
qed

subsection \<open>Bulk import\<close>

text \<open>
  Claim C5. Importing the seven lines of the specification's example into a new manager
  returns the statistics added 2, duplicates 1, malformed 2, and leaves exactly Alice of
  group A1 and Bob of group B2 in the store, both with \<open>callCount = 0\<close>.
\<close>

theorem import_classification:
  "importFromFile
     (Some [''Alice, A1'', '''', ''# comment'', ''Bob,B2'', ''Bob,B2'', ''bad-line'', ''  ,  ''])
     (newRosterManager seed) =
   (Some \<lparr>added = 2, duplicates = 1, malformed = 2\<rparr>,
    \<lparr>students = [\<lparr>name = ''Alice'', group = ''A1'', callCount = 0\<rparr>,
                 \<lparr>name = ''Bob'', group = ''B2'', callCount = 0\<rparr>],
      groupPools = Map.empty, globalPool = [], history = [], rng = seed\<rparr>)"
  by (simp add: importFromFile_def loadLine_def trim_def whitespace_def substr_def
      addStudent_def newRosterManager_def resetCycle_def Let_def)

subsection \<open>History\<close>

text \<open>
  Claim C8. On a history that is not empty, \<open>printHistory\<close> with a positive limit writes
  the \<open>limit\<close> most recent records (all of them when there are fewer), the most recent
  first, and with limit zero it writes all records, the most recent first. On an empty
  history it writes its message and no record. After three
  successive draws that returned \<open>d1\<close>, \<open>d2\<close>, \<open>d3\<close>, the output for limit 2 is the
  record of \<open>d3\<close> followed by the record of \<open>d2\<close>.
\<close>

theorem history_most_recent_first:
  "(history s = [] \<longrightarrow> printHistory limit s = [NoHistoryYet]) \<and>
   (history s \<noteq> [] \<longrightarrow>
      printHistory limit s =
        map RecordLine (if limit = 0 then rev (history s) else take limit (rev (history s)))) \<and>
   (pickRandom shuffle t1 g1 s0 = Inr (Some d1, s1) \<and>
    pickRandom shuffle t2 g2 s1 = Inr (Some d2, s2) \<and>
    pickRandom shuffle t3 g3 s2 = Inr (Some d3, s3) \<longrightarrow>
      printHistory 2 s3 =
        [RecordLine \<lparr>cr_name = name d3, cr_group = group d3, timestamp = t3\<rparr>,
         RecordLine \<lparr>cr_name = name d2, cr_group = group d2, timestamp = t2\<rparr>])"
proof (intro conjI impI)
  assume "history s = []"
  then show "printHistory limit s = [NoHistoryYet]"
    by (simp add: printHistory_def)
next
  assume "history s \<noteq> []"
  then show "printHistory limit s =
      map RecordLine (if limit = 0 then rev (history s) else take limit (rev (history s)))"
    by (rule printHistory_eq)
next
  assume a: "pickRandom shuffle t1 g1 s0 = Inr (Some d1, s1) \<and>
    pickRandom shuffle t2 g2 s1 = Inr (Some d2, s2) \<and>
    pickRandom shuffle t3 g3 s2 = Inr (Some d3, s3)"
  then have "history s3 =
      history s1 @ [\<lparr>cr_name = name d2, cr_group = group d2, timestamp = t2\<rparr>,
                    \<lparr>cr_name = name d3, cr_group = group d3, timestamp = t3\<rparr>]"
    using pickRandom_history [of shuffle t2 g2 s1 d2 s2]
      pickRandom_history [of shuffle t3 g3 s2 d3 s3] by simp
  then show "printHistory 2 s3 =
        [RecordLine \<lparr>cr_name = name d3, cr_group = group d3, timestamp = t3\<rparr>,
         RecordLine \<lparr>cr_name = name d2, cr_group = group d2, timestamp = t2\<rparr>]"
    by (simp add: printHistory_eq)
qed

theorem history_most_recent_first_witness:
  "history roster3 = [] \<and> printHistory 2 roster3 = [NoHistoryYet] \<and>
   history afterThree \<noteq> [] \<and>
   printHistory 0 afterThree =
     [RecordLine \<lparr>cr_name = ''Alice'', cr_group = ''A1'', timestamp = 30\<rparr>,
      RecordLine \<lparr>cr_name = ''Bob'', cr_group = ''A1'', timestamp = 20\<rparr>,
      RecordLine \<lparr>cr_name = ''Carol'', cr_group = ''A2'', timestamp = 10\<rparr>] \<and>
   pickRandom reverseOrder 10 None roster3 =
     Inr (Some \<lparr>name = ''Carol'', group = ''A2'', callCount = 1\<rparr>, afterOne) \<and>
   pickRandom reverseOrder 20 None afterOne =
     Inr (Some \<lparr>name = ''Bob'', group = ''A1'', callCount = 1\<rparr>, afterTwo) \<and>
   pickRandom reverseOrder 30 None afterTwo =
     Inr (Some \<lparr>name = ''Alice'', group = ''A1'', callCount = 1\<rparr>, afterThree) \<and>
   printHistory 2 afterThree =
     [RecordLine \<lparr>cr_name = ''Alice'', cr_group = ''A1'', timestamp = 30\<rparr>,
      RecordLine \<lparr>cr_name = ''Bob'', cr_group = ''A1'', timestamp = 20\<rparr>]"
proof -
  have h: "history afterThree \<noteq> []" by (simp add: afterThree_def)
  have n: "history roster3 = []" by (simp add: roster3_def)
  from history_most_recent_first [of roster3 2 reverseOrder 10 None roster3
      "\<lparr>name = ''Carol'', group = ''A2'', callCount = 1\<rparr>" afterOne 20 None
      "\<lparr>name = ''Bob'', group = ''A1'', callCount = 1\<rparr>" afterTwo 30 None
      "\<lparr>name = ''Alice'', group = ''A1'', callCount = 1\<rparr>" afterThree] n
  have m: "printHistory 2 roster3 = [NoHistoryYet]" by blast
  have d1: "pickRandom reverseOrder 10 None roster3 =
      Inr (Some \<lparr>name = ''Carol'', group = ''A2'', callCount = 1\<rparr>, afterOne)"
    by (simp add: draw_global_roster3 afterOne_def)
  have d2: "pickRandom reverseOrder 20 None afterOne =
      Inr (Some \<lparr>name = ''Bob'', group = ''A1'', callCount = 1\<rparr>, afterTwo)"
    by (simp add: pickRandom_def afterOne_def afterTwo_def consumeIndex_def Let_def INT_MAX_def)
  have d3: "pickRandom reverseOrder 30 None afterTwo =
      Inr (Some \<lparr>name = ''Alice'', group = ''A1'', callCount = 1\<rparr>, afterThree)"
    by (simp add: pickRandom_def afterTwo_def afterThree_def consumeIndex_def Let_def
        INT_MAX_def)
  from history_most_recent_first [of afterThree 0 reverseOrder 10 None roster3
      "\<lparr>name = ''Carol'', group = ''A2'', callCount = 1\<rparr>" afterOne 20 None
      "\<lparr>name = ''Bob'', group = ''A1'', callCount = 1\<rparr>" afterTwo 30 None
      "\<lparr>name = ''Alice'', group = ''A1'', callCount = 1\<rparr>" afterThree] h d1 d2 d3 n m
  show ?thesis by (simp add: afterThree_def)
qed


subsection \<open>Pools\<close>

text \<open>
  Claim C7. Let \<open>shuffle\<close> permute. Whatever sequence of calls is made on a new manager,
  no call takes the front of an empty pool or indexes \<open>students\<close> out of range, and in
  the state reached the global pool and every group pool hold indices below the number of
  entities, none of them twice.
\<close>

theorem pools_hold_live_handles:
  assumes "permuting shuffle"
  shows "run shuffle calls (newRosterManager seed) \<noteq> Inl FrontOfEmptyPool \<and>
         run shuffle calls (newRosterManager seed) \<noteq> Inl IndexOutOfRange \<and>
         (\<forall>s. run shuffle calls (newRosterManager seed) = Inr s \<longrightarrow> poolsValid s)"
  using run_wellFormed [OF assms wellFormed_new, of calls seed]
  by (auto simp: wellFormed_def split: sum.splits)

theorem pools_hold_live_handles_witness:
  "permuting reverseOrder \<and>
   run reverseOrder [AddStudent ''Alice'' ''A1'' True, AddStudent ''Bob'' ''A1'' True,
      AddStudent ''Carol'' ''A2'' True, PickRandom 10 None] (newRosterManager 0) =
     Inr afterOne \<and>
   poolsValid afterOne"
proof -
  have p: "permuting reverseOrder" by simp
  have r: "run reverseOrder [AddStudent ''Alice'' ''A1'' True, AddStudent ''Bob'' ''A1'' True,
      AddStudent ''Carol'' ''A2'' True, PickRandom 10 None] (newRosterManager 0) =
     Inr afterOne"
    by (rule run_afterOne)
  from pools_hold_live_handles [OF p, of "[AddStudent ''Alice'' ''A1'' True,
      AddStudent ''Bob'' ''A1'' True, AddStudent ''Carol'' ''A2'' True, PickRandom 10 None]" 0]
    p r
  show ?thesis by simp
qed

text \<open>
  Claim C3. Let \<open>shuffle\<close> permute. The pool that \<open>refillGlobalPool\<close> installs holds,
  as a multiset, every index of the store; the pool that \<open>refillGroupPool\<close> leaves under
  a key holds exactly the indices of the entities whose group is the key (none, and then
  no pool, when there is no such entity). For a draw that finds its pool empty or absent
  and returns an entity: the index drawn and the indices left in the pool are together
  exactly the members of the scope.
\<close>

theorem replenish_completeness:
  assumes "permuting shuffle"
  shows "mset (globalPool (refillGlobalPool shuffle s)) = mset [0 ..< length (students s)] \<and>
         mset (poolAt (refillGroupPool shuffle g s) g) =
           mset (filter (\<lambda>i. group (students s ! i) = g) [0 ..< length (students s)]) \<and>
         (poolOf scope s = [] \<and> pickRandom shuffle now scope s = Inr (Some st, s') \<longrightarrow>
            (\<exists>idx. idx < length (students s) \<and>
               st = (students s ! idx)\<lparr>callCount := callCount (students s ! idx) + 1\<rparr> \<and>
               mset (idx # poolOf scope s') = mset (members scope s)))"
proof (intro conjI impI)
  from assms show "mset (globalPool (refillGlobalPool shuffle s)) =
      mset [0 ..< length (students s)]"
    by (simp add: refillGlobalPool_def Let_def permuting_def)
  from refillGroupPool_mset [OF assms, of g s]
  show "mset (poolAt (refillGroupPool shuffle g s) g) =
      mset (filter (\<lambda>i. group (students s ! i) = g) [0 ..< length (students s)])"
    unfolding groupIndices_def .
  assume "poolOf scope s = [] \<and> pickRandom shuffle now scope s = Inr (Some st, s')"
  then have "poolOf scope s = []" "pickRandom shuffle now scope s = Inr (Some st, s')"
    by simp_all
  then show "\<exists>idx. idx < length (students s) \<and>
       st = (students s ! idx)\<lparr>callCount := callCount (students s ! idx) + 1\<rparr> \<and>
       mset (idx # poolOf scope s') = mset (members scope s)"
    by (rule pickRandom_replenishes [OF assms])
qed

theorem replenish_completeness_witness:
  "permuting reverseOrder \<and>
   globalPool (refillGlobalPool reverseOrder roster3) = [2, 1, 0] \<and>
   mset (globalPool (refillGlobalPool reverseOrder roster3)) =
     mset [0 ..< length (students roster3)] \<and>
   poolOf None roster3 = [] \<and>
   pickRandom reverseOrder 10 None roster3 =
     Inr (Some \<lparr>name = ''Carol'', group = ''A2'', callCount = 1\<rparr>, afterOne) \<and>
   (\<exists>idx. idx < length (students roster3) \<and>
      \<lparr>name = ''Carol'', group = ''A2'', callCount = 1\<rparr> =
        (students roster3 ! idx)\<lparr>callCount := callCount (students roster3 ! idx) + 1\<rparr> \<and>
      mset (idx # poolOf None afterOne) = mset (members None roster3))"
proof -
  have p: "permuting reverseOrder" by simp
  have e: "poolOf None roster3 = []" by (simp add: members_roster3)
  have d: "pickRandom reverseOrder 10 None roster3 =
      Inr (Some \<lparr>name = ''Carol'', group = ''A2'', callCount = 1\<rparr>, afterOne)"
    by (simp add: draw_global_roster3 afterOne_def)
  have g: "globalPool (refillGlobalPool reverseOrder roster3) = [2, 1, 0]"
    by (simp add: refillGlobalPool_def reverseOrder_def roster3_def Let_def
        upt_rec [of 0] upt_rec [of 1] upt_rec [of 2] upt_rec [of 3])
  note t = replenish_completeness [OF p, of roster3 "''A1''" None 10
      "\<lparr>name = ''Carol'', group = ''A2'', callCount = 1\<rparr>" afterOne]
  from t have c1: "mset (globalPool (refillGlobalPool reverseOrder roster3)) =
      mset [0 ..< length (students roster3)]"
    by (rule conjunct1)
  from t e d have c3: "\<exists>idx. idx < length (students roster3) \<and>
      \<lparr>name = ''Carol'', group = ''A2'', callCount = 1\<rparr> =
        (students roster3 ! idx)\<lparr>callCount := callCount (students roster3 ! idx) + 1\<rparr> \<and>
      mset (idx # poolOf None afterOne) = mset (members None roster3)"
    by blast
  from p g c1 e d c3 show ?thesis by (intro conjI)
qed

text \<open>
  Claim C4. After \<open>addStudent\<close> has added a new identity with \<open>refreshPools\<close> true, and
  after \<open>importFromFile\<close> on a file that opens, the global pool is empty and no group
  pool exists. The next draw, in whatever scope, therefore replenishes from the current
  membership when \<open>shuffle\<close> permutes: it returns nobody only when the scope has no
  entity, and otherwise it returns an entity whose index, together with the indices left
  in the pool, is the current membership of the scope (short of the overflow of that
  entity's counter). After an insert the new entity's index is a member of the global
  scope and of its group's scope, so a draw in either of them does not come back empty.
\<close>

theorem membership_change_clears_pools:
  "(nm \<notin> name ` set (students s) \<longrightarrow>
      globalPool (snd (addStudent nm grp True s)) = [] \<and>
      groupPools (snd (addStudent nm grp True s)) = Map.empty \<and>
      length (students s) \<in> set (members None (snd (addStudent nm grp True s))) \<and>
      length (students s) \<in> set (members (Some grp) (snd (addStudent nm grp True s))) \<and>
      (permuting shuffle \<longrightarrow>
         drawsFromMembership shuffle now scope (snd (addStudent nm grp True s)) \<and>
         pickRandom shuffle now None (snd (addStudent nm grp True s)) \<noteq> Inr (None, s') \<and>
         pickRandom shuffle now (Some grp) (snd (addStudent nm grp True s)) \<noteq>
           Inr (None, s'))) \<and>
   globalPool (snd (importFromFile (Some lines) s)) = [] \<and>
   groupPools (snd (importFromFile (Some lines) s)) = Map.empty \<and>
   (permuting shuffle \<longrightarrow>
      drawsFromMembership shuffle now scope (snd (importFromFile (Some lines) s)))"
proof -
  have fresh: "drawsFromMembership shuffle now sc t"
    if "globalPool t = []" "groupPools t = Map.empty" "permuting shuffle" for t sc
  proof -
    from that(1,2) have "poolOf sc t = []" by (rule poolOf_cleared)
    with that(3) show ?thesis by (rule drawsFromMembership_fresh)
  qed
  have served: "pickRandom shuffle now sc t \<noteq> Inr (None, s')"
    if "drawsFromMembership shuffle now sc t" "i \<in> set (members sc t)" for t sc i
  proof
    assume "pickRandom shuffle now sc t = Inr (None, s')"
    with that(1) have "members sc t = []" by (simp add: drawsFromMembership_def)
    with that(2) show False by simp
  qed
  have imp: "globalPool (snd (importFromFile (Some lines) s)) = []"
    "groupPools (snd (importFromFile (Some lines) s)) = Map.empty"
    by (simp_all add: importFromFile_def Let_def)
  show ?thesis
  proof (intro conjI impI)
    assume new: "nm \<notin> name ` set (students s)"
    then show add: "globalPool (snd (addStudent nm grp True s)) = []"
      "groupPools (snd (addStudent nm grp True s)) = Map.empty"
      by (simp_all add: addStudent_absent)
    from new
    show g: "length (students s) \<in> set (members None (snd (addStudent nm grp True s)))"
      by (simp add: addStudent_absent members_def)
    from new show
      a: "length (students s) \<in> set (members (Some grp) (snd (addStudent nm grp True s)))"
      by (simp add: addStudent_absent members_def groupIndices_append_new)
    assume p: "permuting shuffle"
    from fresh [OF add p]
    show "drawsFromMembership shuffle now scope (snd (addStudent nm grp True s))" .
    from served [OF fresh [OF add p] g]
    show "pickRandom shuffle now None (snd (addStudent nm grp True s)) \<noteq> Inr (None, s')" .
    from served [OF fresh [OF add p] a]
    show "pickRandom shuffle now (Some grp) (snd (addStudent nm grp True s)) \<noteq>
        Inr (None, s')" .
  next
    show "globalPool (snd (importFromFile (Some lines) s)) = []"
      "groupPools (snd (importFromFile (Some lines) s)) = Map.empty"
      by (rule imp)+
  next
    assume "permuting shuffle"
    with imp
    show "drawsFromMembership shuffle now scope (snd (importFromFile (Some lines) s))"
      by (rule fresh)
  qed
qed

theorem membership_change_clears_pools_witness:
  "''Dave'' \<notin> name ` set (students afterOne) \<and> globalPool afterOne = [1, 0] \<and>
   globalPool (snd (addStudent ''Dave'' ''A1'' True afterOne)) = [] \<and>
   groupPools (snd (addStudent ''Dave'' ''A1'' True afterOne)) = Map.empty \<and>
   permuting reverseOrder \<and>
   drawsFromMembership reverseOrder 40 (Some ''A1'')
     (snd (addStudent ''Dave'' ''A1'' True afterOne)) \<and>
   pickRandom reverseOrder 40 (Some ''A1'') (snd (addStudent ''Dave'' ''A1'' True afterOne)) =
     Inr (Some \<lparr>name = ''Dave'', group = ''A1'', callCount = 1\<rparr>, afterDaveA1) \<and>
   pickRandom reverseOrder 40 (Some ''A1'') (snd (addStudent ''Dave'' ''A1'' True afterOne)) \<noteq>
     Inr (None, afterOne) \<and>
   globalPool (snd (importFromFile (Some [''Eve,A2'']) afterOne)) = [] \<and>
   groupPools (snd (importFromFile (Some [''Eve,A2'']) afterOne)) = Map.empty \<and>
   drawsFromMembership reverseOrder 40 (Some ''A1'')
     (snd (importFromFile (Some [''Eve,A2'']) afterOne))"
proof -
  have n: "''Dave'' \<notin> name ` set (students afterOne)" by (simp add: afterOne_def)
  have g: "globalPool afterOne = [1, 0]" by (simp add: afterOne_def)
  have p: "permuting reverseOrder" by simp
  note t = membership_change_clears_pools [where nm = "''Dave''" and s = afterOne
      and grp = "''A1''" and shuffle = reverseOrder and now = 40 and scope = "Some ''A1''"
      and s' = afterOne and lines = "[''Eve,A2'']"]
  from t n have a: "globalPool (snd (addStudent ''Dave'' ''A1'' True afterOne)) = []"
    "groupPools (snd (addStudent ''Dave'' ''A1'' True afterOne)) = Map.empty"
    by blast+
  from t n p have d: "drawsFromMembership reverseOrder 40 (Some ''A1'')
      (snd (addStudent ''Dave'' ''A1'' True afterOne))"
    by blast
  from t n p
  have e: "pickRandom reverseOrder 40 (Some ''A1'')
      (snd (addStudent ''Dave'' ''A1'' True afterOne)) \<noteq> Inr (None, afterOne)"
    by blast
  from t have i: "globalPool (snd (importFromFile (Some [''Eve,A2'']) afterOne)) = []"
    "groupPools (snd (importFromFile (Some [''Eve,A2'']) afterOne)) = Map.empty"
    by blast+
  from t p have f: "drawsFromMembership reverseOrder 40 (Some ''A1'')
      (snd (importFromFile (Some [''Eve,A2'']) afterOne))"
    by blast
  from n g a p d draw_A1_after_Dave e i f show ?thesis by (intro conjI)
qed

subsection \<open>Counters and history\<close>

text \<open>
  Claim C1, as stated, fails: \<open>clearHistory\<close> empties the log and leaves the counters.
  After one insert, one draw and \<open>clearHistory\<close> the counters sum to 1 and the log has
  length 0.
\<close>

theorem counter_history_counterexample:
  "map_sum id totalCalls
     (run reverseOrder [AddStudent ''Alice'' ''A1'' True, PickRandom 10 None, ClearHistory]
        (newRosterManager 0)) = Inr 1 \<and>
   map_sum id (length \<circ> history)
     (run reverseOrder [AddStudent ''Alice'' ''A1'' True, PickRandom 10 None, ClearHistory]
        (newRosterManager 0)) = Inr 0"
  by (simp add: addStudent_def newRosterManager_def resetCycle_def pickRandom_def
      reverseOrder_def refillGlobalPool_def consumeIndex_def Let_def INT_MAX_def
      clearHistory_def totalCalls_def)

text \<open>
  Claim C1, amended. In every state reached from a new manager by calls of
  \<open>addStudent\<close>, \<open>importFromFile\<close>, \<open>pickRandom\<close>, \<open>resetCycle\<close> and \<open>clearHistory\<close>,
  the length of the history is at most the sum of the call counters; when
  \<open>clearHistory\<close> is not among the calls, the two are equal.
\<close>

theorem counters_cover_history:
  assumes "run shuffle calls (newRosterManager seed) = Inr s"
  shows "int (length (history s)) \<le> totalCalls s \<and>
         (ClearHistory \<notin> set calls \<longrightarrow> totalCalls s = int (length (history s)))"
proof -
  have "gap (newRosterManager seed) = 0"
    by (simp add: gap_def totalCalls_def newRosterManager_def)
  with gap_run [OF assms] show ?thesis by (auto simp: gap_def)
qed

theorem counters_cover_history_witness:
  "run reverseOrder [AddStudent ''Alice'' ''A1'' True, AddStudent ''Bob'' ''A1'' True,
      AddStudent ''Carol'' ''A2'' True, PickRandom 10 None] (newRosterManager 0) =
     Inr afterOne \<and>
   ClearHistory \<notin> set [AddStudent ''Alice'' ''A1'' True, AddStudent ''Bob'' ''A1'' True,
      AddStudent ''Carol'' ''A2'' True, PickRandom 10 None] \<and>
   int (length (history afterOne)) \<le> totalCalls afterOne \<and>
   totalCalls afterOne = int (length (history afterOne))"
proof -
  have c: "ClearHistory \<notin> set [AddStudent ''Alice'' ''A1'' True,
      AddStudent ''Bob'' ''A1'' True, AddStudent ''Carol'' ''A2'' True, PickRandom 10 None]"
    by simp
  from counters_cover_history [OF run_afterOne] c run_afterOne show ?thesis by blast
qed

subsection \<open>Draws within one cycle\<close>

text \<open>
  Claim C2, as stated, fails. \<open>addStudent\<close> with \<open>refreshPools\<close> false leaves the pools
  as they are, so the pool of a cycle under way lacks the entity just added, and a
  draw refills a pool only once it is empty. On the example roster, after one global
  draw and the insertion of Dave with \<open>refreshPools\<close> false, three global draws with
  nothing in between return Bob, Alice and Alice again, while Dave has not been
  returned.
\<close>

theorem stale_pool_counterexample:
  "permuting evenReverse \<and>
   run evenReverse [AddStudent ''Alice'' ''A1'' True, AddStudent ''Bob'' ''A1'' True,
      AddStudent ''Carol'' ''A2'' True, PickRandom 10 None, AddStudent ''Dave'' ''A1'' False]
     (newRosterManager 0) = Inr staleCycle \<and>
   map name (students staleCycle) = [''Alice'', ''Bob'', ''Carol'', ''Dave''] \<and>
   map_sum id fst
     (runLog evenReverse [PickRandom 20 None, PickRandom 30 None, PickRandom 40 None]
        staleCycle) =
     Inr [(None, Some \<lparr>name = ''Bob'', group = ''A1'', callCount = 1\<rparr>),
          (None, Some \<lparr>name = ''Alice'', group = ''A1'', callCount = 1\<rparr>),
          (None, Some \<lparr>name = ''Alice'', group = ''A1'', callCount = 2\<rparr>)]"
proof -
  have "map_sum id fst
     (runLog evenReverse [PickRandom 20 None, PickRandom 30 None, PickRandom 40 None]
        staleCycle) =
     Inr [(None, Some \<lparr>name = ''Bob'', group = ''A1'', callCount = 1\<rparr>),
          (None, Some \<lparr>name = ''Alice'', group = ''A1'', callCount = 1\<rparr>),
          (None, Some \<lparr>name = ''Alice'', group = ''A1'', callCount = 2\<rparr>)]"
    by (simp add: pickRandom_def evenReverse_def refillGlobalPool_def consumeIndex_def
        Let_def INT_MAX_def staleCycle_def)
  moreover have "map name (students staleCycle) = [''Alice'', ''Bob'', ''Carol'', ''Dave'']"
    by (simp add: staleCycle_def)
  ultimately show ?thesis using run_staleCycle permuting_evenReverse by simp
qed

text \<open>
  Claim C2, amended. Let \<open>shuffle\<close> permute, let \<open>s\<close> be a state reached from a new
  manager, and let a sequence of calls follow that holds no insertion, no import and no
  reset: draws against a fixed scope, with draws against other scopes and
  \<open>clearHistory\<close> anywhere in between. Consider the draws against the fixed scope that
  fall into the cycle at hand: the first \<open>n\<close> of them, where \<open>n\<close> is the number of
  entities of the scope when the pool of the scope is empty or absent in \<open>s\<close>, so that the
  first draw opens a cycle, and the number of handles left in the pool otherwise. Each of
  them returns an entity of the scope, and no identity is returned twice among them. When
  the pool of the scope is empty or absent in \<open>s\<close> and there are at least as many draws
  against the scope as it has entities, these draws return every entity of the scope:
  nobody is returned a second time before everybody has been returned once.
\<close>

theorem no_repeat_before_exhaustion:
  assumes "permuting shuffle"
    and "run shuffle calls (newRosterManager seed) = Inr s"
    and "list_all quiet cs"
    and "runLog shuffle cs s = Inr (lg, s')"
  shows "\<exists>sts. take (cycleRest scope s) (drawsOf scope lg) = map Some sts \<and>
           length sts = min (length (drawsOf scope lg)) (cycleRest scope s) \<and>
           distinct (map name sts) \<and>
           set (map name sts) \<subseteq> memberNames scope s \<and>
           (poolOf scope s = [] \<and> length (members scope s) \<le> length (drawsOf scope lg) \<longrightarrow>
              set (map name sts) = memberNames scope s)"
proof -
  let ?rs = "take (cycleRest scope s) (drawsOf scope lg)"
  from run_wellFormed [OF assms(1) wellFormed_new, of calls seed] assms(2)
  have wf: "wellFormed s" by simp
  from assms(3) have qu: "\<forall>c \<in> set cs. quiet c" by (simp add: list_all_iff)
  from runLog_cycleRest [OF assms(1) wf qu assms(4), of scope] obtain q where
    names: "map (map_option name) ?rs = map (\<lambda>i. Some (name (students s ! i))) q"
    and len: "length q = min (length (drawsOf scope lg)) (cycleRest scope s)"
    and dist: "distinct q"
    and sub: "set q \<subseteq> set (members scope s)"
    and full: "poolOf scope s = [] \<and> length (members scope s) \<le> length (drawsOf scope lg) \<longrightarrow>
        set q = set (members scope s)"
    by blast
  from names have some: "?rs = map Some (map the ?rs)"
    by (rule named_results)
  from names have nm: "map name (map the ?rs) = map (\<lambda>i. name (students s ! i)) q"
    by (rule named_results)
  from members_valid [of s scope] dist sub have "validPool (students s) q"
    by (auto simp: validPool_def)
  with wf have d: "distinct (map (\<lambda>i. name (students s ! i)) q)"
    by (simp add: distinct_names_on wellFormed_def)
  from nm have "length (map the ?rs) = length q"
    by (metis length_map)
  with len have l: "length (map the ?rs) = min (length (drawsOf scope lg)) (cycleRest scope s)"
    by simp
  from sub have s1: "set (map (\<lambda>i. name (students s ! i)) q) \<subseteq> memberNames scope s"
    by (auto simp: memberNames_def)
  have s2: "set (map (\<lambda>i. name (students s ! i)) q) = memberNames scope s"
    if "poolOf scope s = [] \<and> length (members scope s) \<le> length (drawsOf scope lg)"
  proof -
    from full that have "set q = set (members scope s)" by blast
    then show ?thesis by (simp add: memberNames_def)
  qed
  show ?thesis
  proof (intro exI [of _ "map the ?rs"] conjI impI)
    from some show "?rs = map Some (map the ?rs)" .
    from l show "length (map the ?rs) = min (length (drawsOf scope lg)) (cycleRest scope s)" .
    from nm d show "distinct (map name (map the ?rs))" by simp
    from nm s1 show "set (map name (map the ?rs)) \<subseteq> memberNames scope s" by simp
    assume "poolOf scope s = [] \<and> length (members scope s) \<le> length (drawsOf scope lg)"
    from s2 [OF this] nm show "set (map name (map the ?rs)) = memberNames scope s" by simp
  qed
qed

theorem no_repeat_before_exhaustion_witness:
  "permuting reverseOrder \<and>
   run reverseOrder [AddStudent ''Alice'' ''A1'' True, AddStudent ''Bob'' ''A1'' True,
      AddStudent ''Carol'' ''A2'' True] (newRosterManager 0) = Inr roster3 \<and>
   list_all quiet [PickRandom 10 (Some ''A1''), ClearHistory, PickRandom 15 None,
      PickRandom 20 (Some ''A1''), PickRandom 30 (Some ''A1'')] \<and>
   runLog reverseOrder [PickRandom 10 (Some ''A1''), ClearHistory, PickRandom 15 None,
      PickRandom 20 (Some ''A1''), PickRandom 30 (Some ''A1'')] roster3 =
     Inr ([(Some ''A1'', Some \<lparr>name = ''Bob'', group = ''A1'', callCount = 1\<rparr>),
           (None, Some \<lparr>name = ''Carol'', group = ''A2'', callCount = 1\<rparr>),
           (Some ''A1'', Some \<lparr>name = ''Alice'', group = ''A1'', callCount = 1\<rparr>),
           (Some ''A1'', Some \<lparr>name = ''Bob'', group = ''A1'', callCount = 2\<rparr>)],
          afterMixed) \<and>
   poolOf (Some ''A1'') roster3 = [] \<and> cycleRest (Some ''A1'') roster3 = 2 \<and>
   (\<exists>sts. [Some \<lparr>name = ''Bob'', group = ''A1'', callCount = 1\<rparr>,
            Some \<lparr>name = ''Alice'', group = ''A1'', callCount = 1\<rparr>] = map Some sts \<and>
      distinct (map name sts) \<and>
      set (map name sts) = memberNames (Some ''A1'') roster3)"
proof -
  let ?lg = "[(Some ''A1'', Some \<lparr>name = ''Bob'', group = ''A1'', callCount = 1\<rparr>),
           (None, Some \<lparr>name = ''Carol'', group = ''A2'', callCount = 1\<rparr>),
           (Some ''A1'', Some \<lparr>name = ''Alice'', group = ''A1'', callCount = 1\<rparr>),
           (Some ''A1'', Some \<lparr>name = ''Bob'', group = ''A1'', callCount = 2\<rparr>)]"
  have p: "permuting reverseOrder" by simp
  have q: "list_all quiet [PickRandom 10 (Some ''A1''), ClearHistory, PickRandom 15 None,
      PickRandom 20 (Some ''A1''), PickRandom 30 (Some ''A1'')]"
    by simp
  have e: "poolOf (Some ''A1'') roster3 = []" by (rule members_roster3)
  have c: "cycleRest (Some ''A1'') roster3 = 2"
    by (simp add: cycleRest_def members_roster3)
  have ds: "drawsOf (Some ''A1'') ?lg =
      [Some \<lparr>name = ''Bob'', group = ''A1'', callCount = 1\<rparr>,
       Some \<lparr>name = ''Alice'', group = ''A1'', callCount = 1\<rparr>,
       Some \<lparr>name = ''Bob'', group = ''A1'', callCount = 2\<rparr>]"
    by (simp add: drawsOf_def)
  have l: "length (members (Some ''A1'') roster3) \<le> length (drawsOf (Some ''A1'') ?lg)"
    by (simp add: members_roster3 drawsOf_def)
  from no_repeat_before_exhaustion [OF p run_adds_roster3 q log_mixed, of "Some ''A1''"]
  obtain sts where
    t: "take (cycleRest (Some ''A1'') roster3) (drawsOf (Some ''A1'') ?lg) = map Some sts"
    and d: "distinct (map name sts)"
    and f: "poolOf (Some ''A1'') roster3 = [] \<and>
        length (members (Some ''A1'') roster3) \<le> length (drawsOf (Some ''A1'') ?lg) \<longrightarrow>
        set (map name sts) = memberNames (Some ''A1'') roster3"
    by blast
  from t c ds have t2: "[Some \<lparr>name = ''Bob'', group = ''A1'', callCount = 1\<rparr>,
      Some \<lparr>name = ''Alice'', group = ''A1'', callCount = 1\<rparr>] = map Some sts"
    by simp
  from f e l have f2: "set (map name sts) = memberNames (Some ''A1'') roster3"
    by blast
  from t2 d f2
  have "\<exists>sts. [Some \<lparr>name = ''Bob'', group = ''A1'', callCount = 1\<rparr>,
            Some \<lparr>name = ''Alice'', group = ''A1'', callCount = 1\<rparr>] = map Some sts \<and>
      distinct (map name sts) \<and>
      set (map name sts) = memberNames (Some ''A1'') roster3"
    by (intro exI [of _ sts] conjI)
  with p run_adds_roster3 [of reverseOrder] q log_mixed e c
  show ?thesis by (intro conjI)
qed

subsection \<open>The menu and the core\<close>

text \<open>
  Claim C10, as stated, fails in two places. The menu entry does not trim: a name and a
  group with blanks around them reach the store as typed, while the bulk loader, which is
  part of the core class, trims both fields. And an insert with an empty group fails when
  its identity is present, although the store has no empty identity.
\<close>

theorem menu_layer_counterexample:
  "students (snd (menuAddStudent '' Bob'' ''B2 '' (newRosterManager (0::nat)))) =
     [\<lparr>name = '' Bob'', group = ''B2 '', callCount = 0\<rparr>] \<and>
   students (snd (importFromFile (Some ['' Bob , B2 '']) (newRosterManager (0::nat)))) =
     [\<lparr>name = ''Bob'', group = ''B2'', callCount = 0\<rparr>] \<and>
   [] \<notin> name ` set (students roster3) \<and>
   fst (addStudent ''Bob'' [] True roster3) = False"
  by (simp add: menuAddStudent_def importFromFile_def loadLine_def trim_def whitespace_def
      substr_def addStudent_def newRosterManager_def resetCycle_def roster3_def Let_def)

text \<open>
  Claim C10, amended. \<open>addStudent\<close> does not inspect its strings beyond comparing the
  identity with those in the store: when the empty identity is not in the store,
  inserting it with any group returns true and appends an entity with the empty name;
  when an identity is not in the store, inserting it with the empty group returns true
  and appends an entity with the empty group. The menu entry refuses an empty name or
  group and changes nothing then; a non-empty name and group it passes to \<open>addStudent\<close>
  as typed, without trimming. Trimming and a check of the trimmed fields are done by the
  bulk loader: \<open>trim\<close> removes blanks from both ends of a string and nothing else, and
  what it leaves is empty or has no blank at either end; and a line either leaves the
  store as it is or adds one entity with \<open>callCount = 0\<close> whose name and group are the
  text before the first comma of the line and the text after it, each without the blanks
  around it and neither of them empty.
\<close>

theorem core_insert_does_not_validate:
  "([] \<notin> name ` set (students s) \<longrightarrow>
      fst (addStudent [] grp refreshPools s) = True \<and>
      students (snd (addStudent [] grp refreshPools s)) =
        students s @ [\<lparr>name = [], group = grp, callCount = 0\<rparr>]) \<and>
   (nm \<notin> name ` set (students s) \<longrightarrow>
      fst (addStudent nm [] refreshPools s) = True \<and>
      students (snd (addStudent nm [] refreshPools s)) =
        students s @ [\<lparr>name = nm, group = [], callCount = 0\<rparr>]) \<and>
   (nm = [] \<or> grp = [] \<longrightarrow>
      menuAddStudent nm grp s = (''Name and group cannot be empty.'', s)) \<and>
   (nm \<noteq> [] \<and> grp \<noteq> [] \<longrightarrow>
      snd (menuAddStudent nm grp s) = snd (addStudent nm grp True s)) \<and>
   students (snd (loadLine '' Bob , B2 '' (stats, newRosterManager seed))) =
     [\<lparr>name = ''Bob'', group = ''B2'', callCount = 0\<rparr>] \<and>
   (\<exists>a b. str = a @ trim str @ b \<and> blank a \<and> blank b \<and>
      (trim str = [] \<or> trimmed (trim str))) \<and>
   (students (snd (loadLine line (stats, s))) = students s \<or>
    (\<exists>a fn b c fg d. line = a @ fn @ b @ CHR '','' # c @ fg @ d \<and>
       blank a \<and> blank b \<and> blank c \<and> blank d \<and> trimmed fn \<and> trimmed fg \<and>
       CHR '','' \<notin> set fn \<and>
       students (snd (loadLine line (stats, s))) =
         students s @ [\<lparr>name = fn, group = fg, callCount = 0\<rparr>]))"
proof (intro conjI impI)
  show "students (snd (loadLine '' Bob , B2 '' (stats, newRosterManager seed))) =
     [\<lparr>name = ''Bob'', group = ''B2'', callCount = 0\<rparr>]"
    by (simp add: loadLine_def trim_def whitespace_def substr_def addStudent_def
        newRosterManager_def Let_def)
  show "snd (menuAddStudent nm grp s) = snd (addStudent nm grp True s)"
    if "nm \<noteq> [] \<and> grp \<noteq> []"
    using that by (simp add: menuAddStudent_def split: prod.splits bool.splits)
  show "\<exists>a b. str = a @ trim str @ b \<and> blank a \<and> blank b \<and>
      (trim str = [] \<or> trimmed (trim str))"
    by (rule trim_decomposition)
  show "students (snd (loadLine line (stats, s))) = students s \<or>
    (\<exists>a fn b c fg d. line = a @ fn @ b @ CHR '','' # c @ fg @ d \<and>
       blank a \<and> blank b \<and> blank c \<and> blank d \<and> trimmed fn \<and> trimmed fg \<and>
       CHR '','' \<notin> set fn \<and>
       students (snd (loadLine line (stats, s))) =
         students s @ [\<lparr>name = fn, group = fg, callCount = 0\<rparr>])"
    by (rule loadLine_adds_trimmed)
qed (simp_all add: addStudent_absent menuAddStudent_def)

theorem core_insert_does_not_validate_witness:
  "[] \<notin> name ` set (students roster3) \<and>
   fst (addStudent [] ''A1'' False roster3) = True \<and>
   students (snd (addStudent [] ''A1'' False roster3)) =
     students roster3 @ [\<lparr>name = [], group = ''A1'', callCount = 0\<rparr>] \<and>
   '' Dave '' \<notin> name ` set (students roster3) \<and>
   fst (addStudent '' Dave '' [] False roster3) = True \<and>
   students (snd (addStudent '' Dave '' [] False roster3)) =
     students roster3 @ [\<lparr>name = '' Dave '', group = [], callCount = 0\<rparr>] \<and>
   menuAddStudent [] ''A1'' roster3 = (''Name and group cannot be empty.'', roster3) \<and>
   snd (menuAddStudent '' Dave '' ''A1'' roster3) = snd (addStudent '' Dave '' ''A1'' True roster3) \<and>
   students (snd (loadLine '' , A1''
       (\<lparr>added = 0, duplicates = 0, malformed = 0\<rparr>, roster3))) = students roster3 \<and>
   students (snd (loadLine '' Dave , A1 ''
       (\<lparr>added = 0, duplicates = 0, malformed = 0\<rparr>, roster3))) \<noteq> students roster3 \<and>
   (\<exists>a fn b c fg d. '' Dave , A1 '' = a @ fn @ b @ CHR '','' # c @ fg @ d \<and>
      blank a \<and> blank b \<and> blank c \<and> blank d \<and> trimmed fn \<and> trimmed fg \<and>
      CHR '','' \<notin> set fn \<and>
      students (snd (loadLine '' Dave , A1 ''
          (\<lparr>added = 0, duplicates = 0, malformed = 0\<rparr>, roster3))) =
        students roster3 @ [\<lparr>name = fn, group = fg, callCount = 0\<rparr>])"
proof -
  have e: "[] \<notin> name ` set (students roster3)" by (simp add: roster3_def)
  have d: "'' Dave '' \<notin> name ` set (students roster3)" by (simp add: roster3_def)
  have n: "'' Dave '' \<noteq> [] \<and> ''A1'' \<noteq> []" by simp
  have u: "students (snd (loadLine '' , A1''
      (\<lparr>added = 0, duplicates = 0, malformed = 0\<rparr>, roster3))) = students roster3"
    by (simp add: loadLine_def trim_def whitespace_def substr_def Let_def)
  have v: "students (snd (loadLine '' Dave , A1 ''
      (\<lparr>added = 0, duplicates = 0, malformed = 0\<rparr>, roster3))) \<noteq> students roster3"
    by (simp add: loadLine_def trim_def whitespace_def substr_def addStudent_def
        roster3_def Let_def)
  note t1 = core_insert_does_not_validate [where s = roster3 and grp = "''A1''"
      and refreshPools = False and nm = "'' Dave ''"
      and stats = "\<lparr>added = 0, duplicates = 0, malformed = 0\<rparr>" and seed = 0
      and str = "'' Dave ''" and line = "'' Dave , A1 ''"]
  note t2 = core_insert_does_not_validate [where s = roster3 and grp = "''A1''"
      and refreshPools = False and nm = "[]"
      and stats = "\<lparr>added = 0, duplicates = 0, malformed = 0\<rparr>" and seed = 0
      and str = "'' Dave ''" and line = "'' Dave , A1 ''"]
  from t1 e have a: "fst (addStudent [] ''A1'' False roster3) = True"
    "students (snd (addStudent [] ''A1'' False roster3)) =
       students roster3 @ [\<lparr>name = [], group = ''A1'', callCount = 0\<rparr>]"
    by blast+
  from t1 d have b: "fst (addStudent '' Dave '' [] False roster3) = True"
    "students (snd (addStudent '' Dave '' [] False roster3)) =
       students roster3 @ [\<lparr>name = '' Dave '', group = [], callCount = 0\<rparr>]"
    by blast+
  from t1 n have m: "snd (menuAddStudent '' Dave '' ''A1'' roster3) =
      snd (addStudent '' Dave '' ''A1'' True roster3)"
    by blast
  from t2 have r: "menuAddStudent [] ''A1'' roster3 =
      (''Name and group cannot be empty.'', roster3)"
    by blast
  from t1 v have w: "\<exists>a fn b c fg d. '' Dave , A1 '' = a @ fn @ b @ CHR '','' # c @ fg @ d \<and>
      blank a \<and> blank b \<and> blank c \<and> blank d \<and> trimmed fn \<and> trimmed fg \<and>
      CHR '','' \<notin> set fn \<and>
      students (snd (loadLine '' Dave , A1 ''
          (\<lparr>added = 0, duplicates = 0, malformed = 0\<rparr>, roster3))) =
        students roster3 @ [\<lparr>name = fn, group = fg, callCount = 0\<rparr>]"
    by blast
  from e a d b r m u v w show ?thesis by (intro conjI)
qed

end
